theory Spec2Isabelle
  imports
    Main
    "HOL-Library.Char_ord"
    "HOL-Library.List_Lexorder"
    "HOL-Library.AList"
    "HOL-Library.Multiset"
begin

section \<open>The parsed document\<close>

text \<open>
  \<^verbatim>\<open>main.py\<close> is one linear script. Its input is the XML export; the model starts
  from what the \<^verbatim>\<open>findall\<close> calls deliver, in document order:
  \<^item> the code definitions, as pairs (\<^verbatim>\<open>id\<close>, \<^verbatim>\<open>name\<close>);
  \<^item> the quotation elements, as pairs (\<^verbatim>\<open>id\<close>, \<^verbatim>\<open>name\<close>);
  \<^item> the code families, as triples (\<^verbatim>\<open>id\<close>, \<^verbatim>\<open>name\<close>, item ids);
  \<^item> the coding links, as pairs (\<^verbatim>\<open>obj\<close>, \<^verbatim>\<open>qRef\<close>).

  A Python \<^verbatim>\<open>str\<close> is a \<open>string\<close> whose characters are the code points below 256.
  Exceptions are values of \<open>error\<close>; a step that can raise returns \<open>error + 'a\<close>.
\<close>

datatype error = KeyError | ValueError | OverflowError

subsection \<open>Character classes of the regular expressions\<close>

text \<open>
  \<^verbatim>\<open>\s\<close> and \<^verbatim>\<open>str.strip()\<close> use the same test (\<^verbatim>\<open>str.isspace\<close>); below 256 it holds
  for 9..13, 28..32, 133 and 160. \<^verbatim>\<open>\d\<close> holds below 256 for the ten ASCII digits only.
\<close>

definition is_space :: "char \<Rightarrow> bool" where
  "is_space c =
     (let n = (of_char c :: nat)
      in (9 \<le> n \<and> n \<le> 13) \<or> (28 \<le> n \<and> n \<le> 32) \<or> n = 133 \<or> n = 160)"

definition is_digit :: "char \<Rightarrow> bool" where
  "is_digit c = (let n = (of_char c :: nat) in 48 \<le> n \<and> n \<le> 57)"

text \<open>\<^verbatim>\<open>s.strip()\<close> and \<^verbatim>\<open>s.rstrip()\<close>.\<close>

definition rstrip :: "string \<Rightarrow> string" where
  "rstrip s = rev (dropWhile is_space (rev s))"

definition strip :: "string \<Rightarrow> string" where
  "strip s = rstrip (dropWhile is_space s)"

subsection \<open>The two patterns\<close>

text \<open>\<open>after_prefix p s\<close>: the literal \<open>p\<close> matched at the front of \<open>s\<close>; what follows it.\<close>

fun after_prefix :: "string \<Rightarrow> string \<Rightarrow> string option" where
  "after_prefix [] s = Some s"
| "after_prefix (p # ps) [] = None"
| "after_prefix (p # ps) (c # cs) = (if p = c then after_prefix ps cs else None)"

text \<open>
  \<^verbatim>\<open>(\d+)\)\<close> at the front of \<open>s\<close>: the group and what follows the match. The greedy
  \<^verbatim>\<open>\d+\<close> takes the whole run of digits; giving a digit back cannot help, because the next
  pattern character is the parenthesis.
\<close>

definition match_digits_close :: "string \<Rightarrow> (string \<times> string) option" where
  "match_digits_close s =
     (let ds = takeWhile is_digit s
      in case dropWhile is_digit s of
           [] \<Rightarrow> None
         | c # r \<Rightarrow> if ds \<noteq> [] \<and> c = CHR '')'' then Some (ds, r) else None)"

text \<open>\<^verbatim>\<open>\(AT(\d+)\)\<close> matched at the front of \<open>s\<close>: group 1.\<close>

definition match_AT :: "string \<Rightarrow> string option" where
  "match_AT s =
     (case after_prefix ''(AT'' s of
        None \<Rightarrow> None
      | Some r \<Rightarrow> map_option fst (match_digits_close r))"

text \<open>\<^verbatim>\<open>re.search(r"\(AT(\d+)\)", name)\<close>: the start positions are tried from the left.\<close>

fun re_search_AT :: "string \<Rightarrow> string option" where
  "re_search_AT [] = None"
| "re_search_AT (c # cs) =
     (case match_AT (c # cs) of Some ds \<Rightarrow> Some ds | None \<Rightarrow> re_search_AT cs)"

text \<open>
  \<^verbatim>\<open>\s*\(T(\d+)\)\s*$\<close> matched at the front of \<open>s\<close>: group 1. The leading \<^verbatim>\<open>\s*\<close> takes the
  whole run of whitespace (the next pattern character is not whitespace); the trailing
  \<^verbatim>\<open>\s*\<close> does the same, and \<^verbatim>\<open>$\<close> then asks for the end of the string.
\<close>

definition match_T :: "string \<Rightarrow> string option" where
  "match_T s =
     (case after_prefix ''(T'' (dropWhile is_space s) of
        None \<Rightarrow> None
      | Some r \<Rightarrow>
          (case match_digits_close r of
             None \<Rightarrow> None
           | Some (ds, r') \<Rightarrow> if list_all is_space r' then Some ds else None))"

text \<open>
  \<^verbatim>\<open>re.search(r"\s*\(T(\d+)\)\s*$", raw)\<close>: \<^verbatim>\<open>m.start()\<close> and \<^verbatim>\<open>m.group(1)\<close> of the leftmost
  match; \<open>i\<close> is the position of \<open>s\<close> in the whole string.
\<close>

fun re_search_T :: "nat \<Rightarrow> string \<Rightarrow> (nat \<times> string) option" where
  "re_search_T i [] = None"
| "re_search_T i (c # cs) =
     (case match_T (c # cs) of Some ds \<Rightarrow> Some (i, ds) | None \<Rightarrow> re_search_T (Suc i) cs)"

section \<open>Step 2: code names and tactic overrides\<close>

record code_index =
  code_to_name :: "string \<rightharpoonup> string"
  code_to_tactic_override :: "string \<rightharpoonup> string"

definition no_codes :: code_index where
  "no_codes = \<lparr>code_to_name = Map.empty, code_to_tactic_override = Map.empty\<rparr>"

text \<open>The body of the loop over \<^verbatim>\<open>./codes/code\<close>.\<close>

fun add_code :: "string \<times> string \<Rightarrow> code_index \<Rightarrow> code_index" where
  "add_code (cid, raw) ci =
     (case re_search_T 0 raw of
        Some (start, tn) \<Rightarrow>
          ci\<lparr>code_to_name := (code_to_name ci)(cid \<mapsto> strip (take start raw)),
             code_to_tactic_override := (code_to_tactic_override ci)(cid \<mapsto> tn)\<rparr>
      | None \<Rightarrow> ci\<lparr>code_to_name := (code_to_name ci)(cid \<mapsto> raw)\<rparr>)"

definition build_code_index :: "(string \<times> string) list \<Rightarrow> code_index" where
  "build_code_index codes = fold add_code codes no_codes"

section \<open>Step 3: quotations and the marker fallback\<close>

text \<open>
  The dict built for each quotation. Its key \<^verbatim>\<open>"tactic"\<close> is the field \<open>q_tactic\<close> (the bare
  word is reserved in Isabelle).
\<close>

record quote =
  qid :: string
  order :: nat
  q_tactic :: "string option"

text \<open>The loop over \<^verbatim>\<open>enumerate(...)\<close>, \<open>idx\<close> being the next index.\<close>

fun quotes_from :: "nat \<Rightarrow> (string \<times> string) list \<Rightarrow> quote list" where
  "quotes_from idx [] = []"
| "quotes_from idx ((q, name) # qs) =
     \<lparr>qid = q, order = idx, q_tactic = re_search_AT name\<rparr> # quotes_from (Suc idx) qs"

definition quotes :: "(string \<times> string) list \<Rightarrow> quote list" where
  "quotes elems = quotes_from 0 elems"

text \<open>\<^verbatim>\<open>{q["qid"]: q for q in quotes}\<close>: a later quotation with the same id replaces an earlier one.\<close>

definition quotes_by_id :: "quote list \<Rightarrow> (string \<rightharpoonup> quote)" where
  "quotes_by_id qs = fold (\<lambda>q m. m(qid q \<mapsto> q)) qs Map.empty"

text \<open>Python's truth value of a \<^verbatim>\<open>str\<close> or \<^verbatim>\<open>None\<close>.\<close>

fun truthy :: "string option \<Rightarrow> bool" where
  "truthy None = False"
| "truthy (Some s) = (s \<noteq> [])"

definition title_quotes :: "quote list \<Rightarrow> quote list" where
  "title_quotes qs = sort_key order (filter (\<lambda>q. truthy (q_tactic q)) qs)"

text \<open>The \<^verbatim>\<open>for tq in reversed(title_quotes)\<close> loop, on the reversed list.\<close>

fun find_tactic_loop :: "quote list \<Rightarrow> nat \<Rightarrow> string option" where
  "find_tactic_loop [] ord = None"
| "find_tactic_loop (tq # tqs) ord =
     (if order tq \<le> ord then q_tactic tq else find_tactic_loop tqs ord)"

definition find_tactic_for :: "quote list \<Rightarrow> string \<Rightarrow> error + string option" where
  "find_tactic_for qs q =
     (case quotes_by_id qs q of
        None \<Rightarrow> Inl KeyError
      | Some r \<Rightarrow> Inr (find_tactic_loop (rev (title_quotes qs)) (order r)))"

section \<open>Step 4: code families\<close>

text \<open>
  A Python \<^verbatim>\<open>dict\<close> whose iteration order matters is an association list: storing under a
  key that is present replaces the value where it stands, storing under a new key appends
  (\<open>AList.update\<close>). \<^verbatim>\<open>families\<close> maps a family id to its name and member ids.
\<close>

type_synonym families = "(string \<times> string \<times> string list) list"

definition families :: "(string \<times> string \<times> string list) list \<Rightarrow> families" where
  "families elems = fold (\<lambda>(fid, name, items). AList.update fid (name, items)) elems []"

section \<open>Step 5: code to tactic assignments\<close>

type_synonym tactic_codes = "(string \<times> string set) list"

text \<open>
  \<^verbatim>\<open>code_to_tactic_override.get(cid) or find_tactic_for(qid)\<close>: the right operand is only
  evaluated when the left one is \<^verbatim>\<open>None\<close> or empty.
\<close>

fun link_tactic :: "code_index \<Rightarrow> quote list \<Rightarrow> string \<times> string \<Rightarrow> error + string option" where
  "link_tactic ci qs (cid, q) =
     (let ov = code_to_tactic_override ci cid
      in if truthy ov then Inr ov else find_tactic_for qs q)"

text \<open>\<^verbatim>\<open>tactic_codes[tac].add(cid)\<close> on the \<^verbatim>\<open>defaultdict(set)\<close>.\<close>

definition add_cid :: "string \<Rightarrow> string \<Rightarrow> tactic_codes \<Rightarrow> tactic_codes" where
  "add_cid tac cid tc =
     AList.update tac (insert cid (case map_of tc tac of None \<Rightarrow> {} | Some cids \<Rightarrow> cids)) tc"

text \<open>The body of the loop over the \<^verbatim>\<open>iLink\<close> elements.\<close>

fun add_link :: "code_index \<Rightarrow> quote list \<Rightarrow> string \<times> string \<Rightarrow> tactic_codes \<Rightarrow> error + tactic_codes" where
  "add_link ci qs (cid, q) tc =
     (case link_tactic ci qs (cid, q) of
        Inl e \<Rightarrow> Inl e
      | Inr None \<Rightarrow> Inr tc
      | Inr (Some tac) \<Rightarrow> if tac \<noteq> [] then Inr (add_cid tac cid tc) else Inr tc)"

fun tactic_codes_loop ::
  "code_index \<Rightarrow> quote list \<Rightarrow> (string \<times> string) list \<Rightarrow> tactic_codes \<Rightarrow> error + tactic_codes" where
  "tactic_codes_loop ci qs [] tc = Inr tc"
| "tactic_codes_loop ci qs (link # links) tc =
     (case add_link ci qs link tc of
        Inl e \<Rightarrow> Inl e
      | Inr tc' \<Rightarrow> tactic_codes_loop ci qs links tc')"

definition tactic_codes ::
  "code_index \<Rightarrow> quote list \<Rightarrow> (string \<times> string) list \<Rightarrow> error + tactic_codes" where
  "tactic_codes ci qs links = tactic_codes_loop ci qs links []"

section \<open>Step 6: the output rows\<close>

text \<open>\<^verbatim>\<open>sep.join(parts)\<close>.\<close>

fun join :: "string \<Rightarrow> string list \<Rightarrow> string" where
  "join sep [] = []"
| "join sep [x] = x"
| "join sep (x # y # ys) = x @ sep @ join sep (y # ys)"

text \<open>\<^verbatim>\<open>code_to_name[c] for c in hits\<close>: the first id without a name raises.\<close>

fun names_of :: "(string \<rightharpoonup> string) \<Rightarrow> string list \<Rightarrow> error + string list" where
  "names_of m [] = Inr []"
| "names_of m (c # cs) =
     (case m c of
        None \<Rightarrow> Inl KeyError
      | Some n \<Rightarrow> (case names_of m cs of Inl e \<Rightarrow> Inl e | Inr ns \<Rightarrow> Inr (n # ns)))"

text \<open>
  One cell: \<^verbatim>\<open>hits = sorted(cids & set(fam_code_ids))\<close> sorts the code ids (strings compare
  by code point, lexicographically), then the names are looked up in that order.
\<close>

definition cell :: "code_index \<Rightarrow> string set \<Rightarrow> string list \<Rightarrow> error + string" where
  "cell ci cids fam_code_ids =
     (let hits = sorted_list_of_set (cids \<inter> set fam_code_ids)
      in if hits \<noteq> []
         then (case names_of (code_to_name ci) hits of
                 Inl e \<Rightarrow> Inl e
               | Inr ns \<Rightarrow> Inr (join ''; '' ns))
         else Inr [])"

type_synonym row = "(string \<times> string) list"

text \<open>The inner loop over \<^verbatim>\<open>families.items()\<close>, filling \<^verbatim>\<open>row\<close>.\<close>

fun row_loop :: "code_index \<Rightarrow> string set \<Rightarrow> families \<Rightarrow> row \<Rightarrow> error + row" where
  "row_loop ci cids [] row = Inr row"
| "row_loop ci cids ((fam_id, fam_name, fam_code_ids) # fams) row =
     (case cell ci cids fam_code_ids of
        Inl e \<Rightarrow> Inl e
      | Inr s \<Rightarrow> row_loop ci cids fams (AList.update fam_name s row))"

type_synonym output_dict = "(string \<times> row) list"

text \<open>
  The outer loop over \<^verbatim>\<open>tactic_codes.items()\<close>, filling \<^verbatim>\<open>output\<close> (a reserved word of
  Isabelle, so the result is \<open>build_output\<close>).
\<close>

fun output_loop :: "code_index \<Rightarrow> families \<Rightarrow> tactic_codes \<Rightarrow> output_dict \<Rightarrow> error + output_dict" where
  "output_loop ci fams [] out = Inr out"
| "output_loop ci fams ((tac, cids) # tcs) out =
     (case row_loop ci cids fams [] of
        Inl e \<Rightarrow> Inl e
      | Inr row \<Rightarrow> output_loop ci fams tcs (AList.update tac row out))"

definition build_output :: "code_index \<Rightarrow> families \<Rightarrow> tactic_codes \<Rightarrow> error + output_dict" where
  "build_output ci fams tcs = output_loop ci fams tcs []"

section \<open>Steps 7 and 8: the table\<close>

text \<open>
  A data frame: the column labels, and the rows in index order, each with its index label
  and one cell per column. A missing cell (\<^verbatim>\<open>NaN\<close>) is \<open>None\<close>.
\<close>

record table =
  columns :: "string list"
  rows :: "(string \<times> string option list) list"

text \<open>
  \<^verbatim>\<open>pd.DataFrame.from_dict(output, orient="index")\<close>. The columns are the family names in the
  order they are first met (\<open>remdups\<close> keeps last occurrences, hence the two reversals). The
  index holds the keys of the mapping; the script gives every row dict the same keys, and
  then the index is in the order of the mapping.

  The repository pins no pandas version, and the versions differ on a key whose row dict is
  empty, which happens exactly when the document defines no family. pandas 2 turns the
  nesting round first (\<^verbatim>\<open>for index, s in data.items(): for col, v in s.items():
  new_data[col][index] = v\<close>), so such a key leaves no trace and is not in the frame; pandas 3
  keeps it as a row without cells. The model takes the behaviour as a parameter.
\<close>

datatype pandas = Drops_empty_rows | Keeps_empty_rows

definition from_dict :: "pandas \<Rightarrow> output_dict \<Rightarrow> table" where
  "from_dict pd out =
     (let cs = rev (remdups (rev (concat (map (\<lambda>(tac, row). map fst row) out))))
      in \<lparr>columns = cs,
          rows = map (\<lambda>(tac, row). (tac, map (map_of row) cs))
                   (filter (\<lambda>(tac, row). pd = Keeps_empty_rows \<or> row \<noteq> []) out)\<rparr>)"

definition cols :: "string list" where
  "cols =
     [''1. Title'',
      ''2. Description'',
      ''3. Participant'',
      ''4. Related Software Artifact'',
      ''5. Context'',
      ''6. Software Feature'',
      ''7. Tactic Intent'',
      ''8. Target Quality Attribute'',
      ''9. Other Related Quality Attributes'',
      ''10. Measured Impact'',
      ''11. Level of abstraction'',
      ''12. Tool or framework'']"

text \<open>\<^verbatim>\<open>df.reindex(columns=cs)\<close>: a label that is not a column of the frame gives missing cells.\<close>

definition reindex :: "string list \<Rightarrow> table \<Rightarrow> table" where
  "reindex cs df =
     \<lparr>columns = cs,
      rows = map (\<lambda>(k, cells).
               (k, map (\<lambda>c. case map_of (zip (columns df) cells) c of None \<Rightarrow> None | Some v \<Rightarrow> v) cs))
             (rows df)\<rparr>"

text \<open>
  \<^verbatim>\<open>idx.astype(int)\<close> converts each label with \<^verbatim>\<open>int(label)\<close> and stores it as a signed
  64-bit integer. \<^verbatim>\<open>int\<close> of a string: whitespace at both ends is dropped, one sign is
  allowed, then decimal digits, where single underscores may stand between digits; more than
  4300 digits are refused (CPython's default limit). The whitespace of \<^verbatim>\<open>int\<close> is narrower
  than that of \<^verbatim>\<open>str.strip\<close>: below 256 it is 9..13, 32, 133 and 160.
\<close>

definition is_int_space :: "char \<Rightarrow> bool" where
  "is_int_space c =
     (let n = (of_char c :: nat)
      in (9 \<le> n \<and> n \<le> 13) \<or> n = 32 \<or> n = 133 \<or> n = 160)"

definition int_strip :: "string \<Rightarrow> string" where
  "int_strip s = rev (dropWhile is_int_space (rev (dropWhile is_int_space s)))"

definition digits_value :: "string \<Rightarrow> int" where
  "digits_value ds = foldl (\<lambda>a c. 10 * a + (of_char c - 48)) 0 ds"

text \<open>The digits of a literal without sign, its underscores removed; \<open>None\<close> when it is ill-formed.\<close>

fun int_literal_digits :: "string \<Rightarrow> string option" where
  "int_literal_digits [] = None"
| "int_literal_digits [c] = (if is_digit c then Some [c] else None)"
| "int_literal_digits (c # d # ds) =
     (if is_digit c
      then map_option ((#) c) (int_literal_digits (if d = CHR ''_'' then ds else d # ds))
      else None)"

text \<open>\<^verbatim>\<open>int(s)\<close>; \<open>None\<close> is \<^verbatim>\<open>ValueError\<close>.\<close>

definition py_int :: "string \<Rightarrow> int option" where
  "py_int s =
     (case int_strip s of
        [] \<Rightarrow> None
      | c # r \<Rightarrow>
          (case int_literal_digits (if c = CHR ''-'' \<or> c = CHR ''+'' then r else c # r) of
             None \<Rightarrow> None
           | Some ds \<Rightarrow>
               if 4300 < length ds then None
               else Some (if c = CHR ''-'' then - digits_value ds else digits_value ds)))"

text \<open>A valid integer string is a string that \<^verbatim>\<open>int\<close> accepts.\<close>

definition valid_integer_string :: "string \<Rightarrow> bool" where
  "valid_integer_string k = (py_int k \<noteq> None)"

definition astype_int :: "string \<Rightarrow> error + int" where
  "astype_int k =
     (case py_int k of
        None \<Rightarrow> Inl ValueError
      | Some n \<Rightarrow> if - (2 ^ 63) \<le> n \<and> n < 2 ^ 63 then Inr n else Inl OverflowError)"

fun astype_int_all :: "string list \<Rightarrow> error + int list" where
  "astype_int_all [] = Inr []"
| "astype_int_all (k # ks) =
     (case astype_int k of
        Inl e \<Rightarrow> Inl e
      | Inr n \<Rightarrow> (case astype_int_all ks of Inl e \<Rightarrow> Inl e | Inr ns \<Rightarrow> Inr (n # ns)))"

text \<open>
  \<^verbatim>\<open>df.sort_index(key=lambda idx: idx.astype(int))\<close>: the rows are put in ascending order
  of the converted labels. The order of rows whose labels convert to the same integer
  (such as \<^verbatim>\<open>01\<close> and \<^verbatim>\<open>1\<close>) is left to the sorting routine of the library and is not
  modelled: here such rows keep their order, and no statement below says anything about it.
\<close>

definition sort_index :: "table \<Rightarrow> error + table" where
  "sort_index df =
     (case astype_int_all (map fst (rows df)) of
        Inl e \<Rightarrow> Inl e
      | Inr ns \<Rightarrow> Inr (df\<lparr>rows := map snd (sort_key fst (zip ns (rows df)))\<rparr>))"

text \<open>Steps 7 and 8 together, from the \<^verbatim>\<open>output\<close> mapping to the frame that is written.\<close>

definition final_table :: "pandas \<Rightarrow> output_dict \<Rightarrow> error + table" where
  "final_table pd out = sort_index (reindex cols (from_dict pd out))"

section \<open>The whole run\<close>

text \<open>
  Steps 2 to 8 in the order of the script; the first exception ends the run. \<open>pd\<close> is the
  behaviour of the installed pandas.
\<close>

definition run_script ::
  "pandas \<Rightarrow> (string \<times> string) list \<Rightarrow> (string \<times> string) list
     \<Rightarrow> (string \<times> string \<times> string list) list \<Rightarrow> (string \<times> string) list \<Rightarrow> error + table" where
  "run_script pd codes qelems felems links =
     (let ci = build_code_index codes; qs = quotes qelems; fams = families felems
      in case tactic_codes ci qs links of
           Inl e \<Rightarrow> Inl e
         | Inr tcs \<Rightarrow>
             (case build_output ci fams tcs of
                Inl e \<Rightarrow> Inl e
              | Inr out \<Rightarrow> final_table pd out))"

section \<open>The patterns find what they describe\<close>

lemma after_prefix_iff: "after_prefix p s = Some r \<longleftrightarrow> s = p @ r"
  by (induction p s rule: after_prefix.induct) auto

lemma close_not_digit: "\<not> is_digit (CHR '')'')"
  by (simp add: is_digit_def)

lemma match_digits_close_iff:
  "match_digits_close s = Some (ds, r) \<longleftrightarrow>
     s = ds @ CHR '')'' # r \<and> ds \<noteq> [] \<and> list_all is_digit ds"
proof
  assume m: "match_digits_close s = Some (ds, r)"
  then have d: "dropWhile is_digit s = CHR '')'' # r" and t: "takeWhile is_digit s = ds" and n: "ds \<noteq> []"
    by (auto simp: match_digits_close_def Let_def split: list.splits if_splits)
  have "s = takeWhile is_digit s @ dropWhile is_digit s" by simp
  with d t have "s = ds @ CHR '')'' # r" by simp
  moreover have "list_all is_digit ds"
    using t by (auto simp: list_all_iff dest: set_takeWhileD)
  ultimately show "s = ds @ CHR '')'' # r \<and> ds \<noteq> [] \<and> list_all is_digit ds"
    using n by simp
next
  assume a: "s = ds @ CHR '')'' # r \<and> ds \<noteq> [] \<and> list_all is_digit ds"
  then have "takeWhile is_digit s = ds" "dropWhile is_digit s = CHR '')'' # r"
    by (simp_all add: list_all_iff takeWhile_append2 dropWhile_append2 close_not_digit)
  with a show "match_digits_close s = Some (ds, r)"
    by (simp add: match_digits_close_def)
qed

lemma match_AT_iff:
  "match_AT s = Some ds \<longleftrightarrow>
     (\<exists>rest. s = ''(AT'' @ ds @ CHR '')'' # rest) \<and> ds \<noteq> [] \<and> list_all is_digit ds"
proof -
  have "match_AT s = Some ds \<longleftrightarrow> (\<exists>r rest. s = ''(AT'' @ r \<and> match_digits_close r = Some (ds, rest))"
    by (auto simp: match_AT_def after_prefix_iff split: option.splits)
  then show ?thesis
    by (auto simp: match_digits_close_iff)
qed

lemma re_search_AT_leftmost:
  assumes "ds \<noteq> []" "list_all is_digit ds"
    and "\<And>pre' ds' rest'. pre @ ''(AT'' @ ds @ CHR '')'' # rest = pre' @ ''(AT'' @ ds' @ CHR '')'' # rest' \<Longrightarrow>
           ds' \<noteq> [] \<Longrightarrow> list_all is_digit ds' \<Longrightarrow> length pre \<le> length pre'"
  shows "re_search_AT (pre @ ''(AT'' @ ds @ CHR '')'' # rest) = Some ds"
  using assms
proof (induction pre)
  case Nil
  have "match_AT (''(AT'' @ ds @ CHR '')'' # rest) = Some ds"
    using Nil.prems(1,2) by (subst match_AT_iff) blast
  then show ?case by simp
next
  case (Cons c pre)
  let ?s = "pre @ ''(AT'' @ ds @ CHR '')'' # rest"
  have none: "match_AT (c # ?s) = None"
  proof (cases "match_AT (c # ?s)")
    case None then show ?thesis .
  next
    case (Some ds')
    then obtain rest' where "c # ?s = ''(AT'' @ ds' @ CHR '')'' # rest'" "ds' \<noteq> []" "list_all is_digit ds'"
      by (auto simp: match_AT_iff)
    then have "length (c # pre) \<le> length ([]::string)"
      using Cons.prems(3)[of "[]" ds' rest'] by simp
    then show ?thesis by simp
  qed
  have "re_search_AT ?s = Some ds"
  proof (rule Cons.IH[OF Cons.prems(1,2)])
    fix pre' ds' rest'
    assume "?s = pre' @ ''(AT'' @ ds' @ CHR '')'' # rest'" "ds' \<noteq> []" "list_all is_digit ds'"
    then have "length (c # pre) \<le> length (c # pre')"
      using Cons.prems(3)[of "c # pre'" ds' rest'] by simp
    then show "length pre \<le> length pre'" by simp
  qed
  with none show ?case by simp
qed

lemma tactic_quotes_from:
  "map q_tactic (quotes_from idx elems) = map (\<lambda>e. re_search_AT (snd e)) elems"
  by (induction idx elems rule: quotes_from.induct) auto

lemma open_not_space: "\<not> is_space (CHR ''('')" and close_not_space: "\<not> is_space (CHR '')'')"
  and T_not_digit: "\<not> is_digit (CHR ''T'')"
  by (simp_all add: is_space_def is_digit_def)

lemma match_T_iff:
  "match_T s = Some ds \<longleftrightarrow>
     (\<exists>sp ws. s = sp @ ''(T'' @ ds @ CHR '')'' # ws \<and> list_all is_space sp \<and> list_all is_space ws)
       \<and> ds \<noteq> [] \<and> list_all is_digit ds"
proof
  assume m: "match_T s = Some ds"
  then obtain r ws where r: "dropWhile is_space s = ''(T'' @ r"
    and c: "match_digits_close r = Some (ds, ws)" and w: "list_all is_space ws"
    by (auto simp: match_T_def after_prefix_iff split: option.splits if_splits)
  have "s = takeWhile is_space s @ dropWhile is_space s" by simp
  with r c have "s = takeWhile is_space s @ ''(T'' @ ds @ CHR '')'' # ws"
    by (simp add: match_digits_close_iff)
  moreover have "list_all is_space (takeWhile is_space s)"
    by (auto simp: list_all_iff dest: set_takeWhileD)
  ultimately show "(\<exists>sp ws. s = sp @ ''(T'' @ ds @ CHR '')'' # ws \<and> list_all is_space sp \<and> list_all is_space ws)
       \<and> ds \<noteq> [] \<and> list_all is_digit ds"
    using w c by (auto simp: match_digits_close_iff)
next
  assume "(\<exists>sp ws. s = sp @ ''(T'' @ ds @ CHR '')'' # ws \<and> list_all is_space sp \<and> list_all is_space ws)
       \<and> ds \<noteq> [] \<and> list_all is_digit ds"
  then obtain sp ws where s: "s = sp @ ''(T'' @ ds @ CHR '')'' # ws" and sp: "list_all is_space sp"
    and ws: "list_all is_space ws" and d: "ds \<noteq> []" "list_all is_digit ds" by blast
  have "dropWhile is_space s = ''(T'' @ ds @ CHR '')'' # ws"
    using sp by (simp add: s list_all_iff dropWhile_append2 open_not_space)
  moreover have "match_digits_close (ds @ CHR '')'' # ws) = Some (ds, ws)"
    using d by (simp add: match_digits_close_iff)
  ultimately show "match_T s = Some ds"
    using ws by (simp add: match_T_def)
qed

lemma takeWhile_up_to_failure: "list_all P xs \<Longrightarrow> \<not> P c \<Longrightarrow> takeWhile P (xs @ c # ys) = xs"
  by (induction xs) auto

lemma split_at_first_failure:
  assumes "xs @ c # ys = xs' @ c' # ys'" "list_all P xs" "\<not> P c" "list_all P xs'" "\<not> P c'"
  shows "xs = xs' \<and> c = c' \<and> ys = ys'"
proof -
  have "takeWhile P (xs @ c # ys) = xs" "takeWhile P (xs' @ c' # ys') = xs'"
    by (rule takeWhile_up_to_failure[OF assms(2,3)], rule takeWhile_up_to_failure[OF assms(4,5)])
  with assms(1) have "xs = xs'" by metis
  with assms(1) show ?thesis by simp
qed

lemma suffix_T_unique:
  assumes eq: "x @ ''(T'' @ ds @ CHR '')'' # ws = x' @ ''(T'' @ ds' @ CHR '')'' # ws'"
    and "list_all is_space ws" "list_all is_space ws'" "list_all is_digit ds" "list_all is_digit ds'"
  shows "x = x' \<and> ds = ds'"
proof -
  have "rev (x @ ''(T'' @ ds @ CHR '')'' # ws) = rev (x' @ ''(T'' @ ds' @ CHR '')'' # ws')"
    using eq by simp
  then have e1: "rev ws @ CHR '')'' # (rev ds @ CHR ''T'' # CHR ''('' # rev x)
          = rev ws' @ CHR '')'' # (rev ds' @ CHR ''T'' # CHR ''('' # rev x')"
    by simp
  have "rev ds @ CHR ''T'' # CHR ''('' # rev x = rev ds' @ CHR ''T'' # CHR ''('' # rev x'"
    using split_at_first_failure[OF e1, of is_space] assms(2,3) by (simp add: close_not_space)
  from split_at_first_failure[OF this, of is_digit] assms(4,5)
  show ?thesis by (simp add: T_not_digit)
qed

lemma rstrip_decomp: "s = rstrip s @ rev (takeWhile is_space (rev s))"
proof -
  have "rev (rev s) = rev (takeWhile is_space (rev s) @ dropWhile is_space (rev s))"
    by (simp only: takeWhile_dropWhile_id)
  then show ?thesis by (simp only: rev_rev_ident rev_append rstrip_def)
qed

lemma rstrip_last: "rstrip s \<noteq> [] \<Longrightarrow> \<not> is_space (last (rstrip s))"
  unfolding rstrip_def by (simp add: last_rev hd_dropWhile)

lemma rstrip_Cons:
  "rstrip (x # xs) = (if rstrip xs = [] \<and> is_space x then [] else x # rstrip xs)"
  by (simp add: rstrip_def dropWhile_append)

lemma rstrip_Nil_iff: "rstrip s = [] \<longleftrightarrow> list_all is_space s"
  by (simp add: rstrip_def dropWhile_eq_Nil_conv list_all_iff)

lemma dropWhile_rstrip: "dropWhile is_space (rstrip s) = rstrip (dropWhile is_space s)"
proof (induction s)
  case Nil
  then show ?case by (simp add: rstrip_def)
next
  case (Cons x xs)
  show ?case
  proof (cases "is_space x")
    case True
    show ?thesis
    proof (cases "rstrip xs = []")
      case True
      then have "list_all is_space xs" by (simp add: rstrip_Nil_iff)
      then have "dropWhile is_space (x # xs) = []"
        using \<open>is_space x\<close> by (simp add: list_all_iff)
      then have f2: "rstrip (dropWhile is_space (x # xs)) = rstrip []" by (rule arg_cong)
      have f1: "rstrip (x # xs) = []"
        using True \<open>is_space x\<close> by (simp add: rstrip_Cons)
      show ?thesis unfolding f1 f2 by (simp add: rstrip_def)
    next
      case False
      with True Cons show ?thesis by (simp add: rstrip_Cons)
    qed
  next
    case False
    then show ?thesis by (simp add: rstrip_Cons)
  qed
qed

lemma strip_rstrip: "strip (rstrip s) = strip s"
proof -
  have "rstrip (rstrip t) = rstrip t" for t
    by (simp add: rstrip_def dropWhile_idem)
  then show ?thesis by (simp add: strip_def dropWhile_rstrip)
qed

lemma re_search_T_first:
  assumes "\<And>j. j < length a \<Longrightarrow> match_T (drop j a @ b) = None" "match_T b = Some d"
  shows "re_search_T i (a @ b) = Some (i + length a, d)"
  using assms
proof (induction a arbitrary: i)
  case Nil
  then obtain c cs where "b = c # cs"
    by (cases b) (auto simp: match_T_def)
  with Nil show ?case by simp
next
  case (Cons x a)
  have "match_T (x # a @ b) = None" using Cons.prems(1)[of 0] by simp
  moreover have "re_search_T (Suc i) (a @ b) = Some (Suc i + length a, d)"
  proof (rule Cons.IH)
    fix j assume "j < length a"
    then show "match_T (drop j a @ b) = None" using Cons.prems(1)[of "Suc j"] by simp
  qed (rule Cons.prems(2))
  ultimately show ?case by simp
qed

lemma re_search_T_suffix:
  assumes d: "ds \<noteq> []" "list_all is_digit ds" and ws: "list_all is_space ws"
  shows "re_search_T 0 (pre @ ''(T'' @ ds @ CHR '')'' # ws) = Some (length (rstrip pre), ds)"
proof -
  let ?p0 = "rstrip pre" and ?sp = "rev (takeWhile is_space (rev pre))"
  let ?b = "?sp @ ''(T'' @ ds @ CHR '')'' # ws"
  have pre: "pre = ?p0 @ ?sp" by (rule rstrip_decomp)
  have sp: "list_all is_space ?sp" by (auto simp: list_all_iff dest: set_takeWhileD)
  have b: "match_T ?b = Some ds"
    using d ws sp by (subst match_T_iff) blast
  have none: "match_T (drop j ?p0 @ ?b) = None" if j: "j < length ?p0" for j
  proof (cases "match_T (drop j ?p0 @ ?b)")
    case None then show ?thesis .
  next
    case (Some ds')
    then obtain sp' ws' where e: "drop j ?p0 @ ?b = sp' @ ''(T'' @ ds' @ CHR '')'' # ws'"
      and s': "list_all is_space sp'" "list_all is_space ws'" "list_all is_digit ds'"
      by (auto simp: match_T_iff)
    have "(drop j ?p0 @ ?sp) @ ''(T'' @ ds @ CHR '')'' # ws = sp' @ ''(T'' @ ds' @ CHR '')'' # ws'"
      using e by simp
    from suffix_T_unique[OF this ws s'(2) d(2) s'(3)]
    have "drop j ?p0 @ ?sp = sp'" by simp
    with s'(1) have "list_all is_space (drop j ?p0)" by auto
    moreover have "drop j ?p0 \<noteq> []" using j by simp
    ultimately have "is_space (last (drop j ?p0))"
      by (metis last_in_set list_all_iff)
    moreover have "last (drop j ?p0) = last ?p0" using j by simp
    moreover have "?p0 \<noteq> []" using j by auto
    ultimately show ?thesis using rstrip_last by metis
  qed
  have "re_search_T 0 (?p0 @ ?b) = Some (0 + length ?p0, ds)"
    by (rule re_search_T_first[OF none b])
  then have "re_search_T 0 ((?p0 @ ?sp) @ ''(T'' @ ds @ CHR '')'' # ws) = Some (length ?p0, ds)"
    by simp
  then show ?thesis by (simp only: pre[symmetric])
qed

section \<open>Code names and overrides\<close>

lemma add_code_suffix_step:
  assumes "ds \<noteq> []" "list_all is_digit ds" "list_all is_space ws"
  shows "add_code (cid, pre @ ''(T'' @ ds @ CHR '')'' # ws) ci =
           ci\<lparr>code_to_name := (code_to_name ci)(cid \<mapsto> strip pre),
              code_to_tactic_override := (code_to_tactic_override ci)(cid \<mapsto> ds)\<rparr>"
proof -
  have "take (length (rstrip pre)) (pre @ ''(T'' @ ds @ CHR '')'' # ws) = rstrip pre"
    by (subst (2) rstrip_decomp[of pre]) simp
  then show ?thesis
    using re_search_T_suffix[OF assms] by (simp add: strip_rstrip)
qed

lemma add_code_other: "c \<noteq> cid \<Longrightarrow> code_to_name (add_code (c, raw) ci) cid = code_to_name ci cid
   \<and> code_to_tactic_override (add_code (c, raw) ci) cid = code_to_tactic_override ci cid"
  by (simp split: option.splits)

lemma fold_add_code_other:
  "cid \<notin> fst ` set codes \<Longrightarrow>
     code_to_name (fold add_code codes ci) cid = code_to_name ci cid \<and>
     code_to_tactic_override (fold add_code codes ci) cid = code_to_tactic_override ci cid"
proof (induction codes arbitrary: ci)
  case Nil
  then show ?case by simp
next
  case (Cons a codes)
  obtain c raw where a: "a = (c, raw)" by (cases a)
  with Cons.prems have "c \<noteq> cid" "cid \<notin> fst ` set codes" by auto
  then show ?case
    using Cons.IH[of "add_code a ci"] add_code_other[of c cid raw ci] by (simp add: a del: add_code.simps)
qed

text \<open>
  Claim C3, as amended. A code definition whose raw name is \<open>pre\<close>, then \<^verbatim>\<open>(T\<close>, one or more
  digits, \<^verbatim>\<open>)\<close>, then only whitespace: the loop body records the digits as the tactic
  override of the code id and, as its display name, \<open>pre\<close> with the whitespace removed at
  both ends (\<^verbatim>\<open>.strip()\<close>), so leading whitespace of the raw name is not kept. The two
  entries are the final ones when no later definition has the same id.
\<close>

theorem code_suffix_override_and_name:
  assumes "raw = pre @ ''(T'' @ ds @ CHR '')'' # ws"
    and "ds \<noteq> []" and "list_all is_digit ds" and "list_all is_space ws"
  shows "code_to_tactic_override (add_code (cid, raw) ci) cid = Some ds
       \<and> code_to_name (add_code (cid, raw) ci) cid = Some (strip pre)
       \<and> (cid \<notin> fst ` set later \<longrightarrow>
            code_to_tactic_override (build_code_index (earlier @ (cid, raw) # later)) cid = Some ds
          \<and> code_to_name (build_code_index (earlier @ (cid, raw) # later)) cid = Some (strip pre))"
proof -
  have step: "add_code (cid, raw) c =
           c\<lparr>code_to_name := (code_to_name c)(cid \<mapsto> strip pre),
              code_to_tactic_override := (code_to_tactic_override c)(cid \<mapsto> ds)\<rparr>" for c
    unfolding assms(1) by (rule add_code_suffix_step[OF assms(2-4)])
  have "build_code_index (earlier @ (cid, raw) # later)
          = fold add_code later (add_code (cid, raw) (fold add_code earlier no_codes))"
    by (simp add: build_code_index_def del: add_code.simps)
  then show ?thesis
    using fold_add_code_other[of cid later "add_code (cid, raw) (fold add_code earlier no_codes)"]
    by (simp add: step del: add_code.simps)
qed

theorem code_suffix_override_and_name_witness:
  "code_to_tactic_override (build_code_index [(''co_1'', ''Caching (T7)''), (''co_2'', '' Load balancer  (T12) ''), (''co_3'', ''Latency'')]) ''co_2'' = Some ''12''
 \<and> code_to_name (build_code_index [(''co_1'', ''Caching (T7)''), (''co_2'', '' Load balancer  (T12) ''), (''co_3'', ''Latency'')]) ''co_2'' = Some ''Load balancer''"
  using code_suffix_override_and_name[where raw = "'' Load balancer  (T12) ''" and pre = "'' Load balancer  ''"
      and ds = "''12''" and ws = "'' ''" and cid = "''co_2''" and later = "[(''co_3'', ''Latency'')]"
      and earlier = "[(''co_1'', ''Caching (T7)'')]" and ci = no_codes]
  by (simp add: is_digit_def is_space_def strip_def rstrip_def)

text \<open>
  Claim C3 as stated keeps the leading whitespace of the raw name. For the raw name
  \<^verbatim>\<open>" a (T7)"\<close> that would be the display name \<^verbatim>\<open>" a"\<close>; the code records \<^verbatim>\<open>"a"\<close>.
\<close>

theorem code_name_leading_space_counterexample:
  "'' a (T7)'' = '' a '' @ ''(T'' @ ''7'' @ CHR '')'' # []
   \<and> code_to_name (build_code_index [(''co_1'', '' a (T7)'')]) ''co_1'' = Some ''a''
   \<and> rstrip '' a '' = '' a''
   \<and> code_to_name (build_code_index [(''co_1'', '' a (T7)'')]) ''co_1'' \<noteq> Some (rstrip '' a '')"
  by (simp add: build_code_index_def no_codes_def match_T_def match_digits_close_def
      is_digit_def is_space_def strip_def rstrip_def)

text \<open>
  Claim C10. When the name of the quotation at position \<open>i\<close> contains a marker \<^verbatim>\<open>(AT\<close>,
  digits, \<^verbatim>\<open>)\<close> and no marker starts further left, the tactic of the quotation is the
  digits of that marker, whatever follows it (later markers included).
\<close>

theorem quote_marker_leftmost:
  assumes "i < length elems"
    and "snd (elems ! i) = pre @ ''(AT'' @ ds @ CHR '')'' # rest"
    and "ds \<noteq> []" and "list_all is_digit ds"
    and "\<forall>pre' ds' rest'.
           pre @ ''(AT'' @ ds @ CHR '')'' # rest = pre' @ ''(AT'' @ ds' @ CHR '')'' # rest'
             \<and> ds' \<noteq> [] \<and> list_all is_digit ds' \<longrightarrow> length pre \<le> length pre'"
  shows "q_tactic (quotes elems ! i) = Some ds"
proof -
  have "q_tactic (quotes elems ! i) = map q_tactic (quotes elems) ! i"
    using assms(1) tactic_quotes_from [of 0 elems, THEN arg_cong, of length]
    by (simp add: quotes_def)
  also have "\<dots> = re_search_AT (snd (elems ! i))"
    using assms(1) by (simp add: quotes_def tactic_quotes_from)
  also have "\<dots> = Some ds"
    unfolding assms(2) using assms(5) by (intro re_search_AT_leftmost[OF assms(3,4)]) blast
  finally show ?thesis .
qed

theorem quote_marker_leftmost_witness:
  "q_tactic (quotes [(''q_1'', ''intro''), (''q_2'', ''x (AT2) y (AT5)'')] ! 1) = Some ''2''"
proof -
  have left: "\<forall>pre' ds' rest'.
           ''x '' @ ''(AT'' @ ''2'' @ CHR '')'' # '' y (AT5)'' = pre' @ ''(AT'' @ ds' @ CHR '')'' # rest'
             \<and> ds' \<noteq> [] \<and> list_all is_digit ds' \<longrightarrow> length ''x '' \<le> length pre'"
  proof (intro allI impI)
    fix pre' ds' rest'
    assume a: "''x '' @ ''(AT'' @ ''2'' @ CHR '')'' # '' y (AT5)'' = pre' @ ''(AT'' @ ds' @ CHR '')'' # rest'
             \<and> ds' \<noteq> [] \<and> list_all is_digit ds'"
    show "length ''x '' \<le> length pre'"
    proof (cases pre')
      case Nil
      with a show ?thesis by simp
    next
      case (Cons c p1)
      then show ?thesis using a by (cases p1) simp_all
    qed
  qed
  show ?thesis
    using quote_marker_leftmost[of 1 "[(''q_1'', ''intro''), (''q_2'', ''x (AT2) y (AT5)'')]"
        "''x ''" "''2''" "'' y (AT5)''", OF _ _ _ _ left]
    by (simp add: is_digit_def)
qed


section \<open>The marker fallback and the assignment of links\<close>

lemma re_search_AT_nonempty: "re_search_AT s = Some ds \<Longrightarrow> ds \<noteq> []"
  by (induction s) (auto simp: match_AT_iff split: option.splits)

lemma truthy_iff: "truthy x \<longleftrightarrow> (\<exists>s. x = Some s \<and> s \<noteq> [])"
  by (cases x) auto

lemma truthy_quotes_from:
  "r \<in> set (quotes_from idx elems) \<Longrightarrow> truthy (q_tactic r) \<longleftrightarrow> q_tactic r \<noteq> None"
  by (induction idx elems rule: quotes_from.induct) (auto simp: truthy_iff dest: re_search_AT_nonempty)

lemma find_tactic_loop_rev_sorted:
  assumes "sorted (map order tqs)"
  shows "(\<exists>tq \<in> set tqs. order tq \<le> ord
            \<and> (\<forall>tq' \<in> set tqs. order tq' \<le> ord \<longrightarrow> order tq' \<le> order tq)
            \<and> find_tactic_loop (rev tqs) ord = q_tactic tq)
       \<or> ((\<forall>tq \<in> set tqs. ord < order tq) \<and> find_tactic_loop (rev tqs) ord = None)"
  using assms
proof (induction tqs rule: rev_induct)
  case Nil
  then show ?case by simp
next
  case (snoc x xs)
  have sorted: "sorted (map order xs)" and below: "\<forall>y \<in> set xs. order y \<le> order x"
    using snoc.prems by (auto simp: sorted_append)
  show ?case
  proof (cases "order x \<le> ord")
    case True
    with below show ?thesis by auto
  next
    case False
    then have loop: "find_tactic_loop (rev (xs @ [x])) ord = find_tactic_loop (rev xs) ord"
      by simp
    from snoc.IH[OF sorted] False show ?thesis
      unfolding loop by (auto simp: not_le)
  qed
qed

lemma title_quotes_set: "set (title_quotes qs) = {r \<in> set qs. truthy (q_tactic r)}"
  and title_quotes_sorted: "sorted (map order (title_quotes qs))"
  by (simp_all add: title_quotes_def)

lemma find_tactic_for_cases:
  assumes "quotes_by_id (quotes elems) q = Some r"
  shows "(\<exists>tq \<in> set (quotes elems). q_tactic tq \<noteq> None \<and> order tq \<le> order r
            \<and> (\<forall>tq' \<in> set (quotes elems). q_tactic tq' \<noteq> None \<and> order tq' \<le> order r \<longrightarrow> order tq' \<le> order tq)
            \<and> find_tactic_for (quotes elems) q = Inr (q_tactic tq))
        \<or> ((\<forall>tq \<in> set (quotes elems). q_tactic tq \<noteq> None \<longrightarrow> order r < order tq)
            \<and> find_tactic_for (quotes elems) q = Inr None)"
proof -
  let ?qs = "quotes elems" and ?T = "title_quotes (quotes elems)"
  have T: "set ?T = {t \<in> set ?qs. q_tactic t \<noteq> None}"
    using truthy_quotes_from[of _ 0 elems] by (auto simp: title_quotes_set quotes_def)
  have f: "find_tactic_for ?qs q = Inr (find_tactic_loop (rev ?T) (order r))"
    using assms by (simp add: find_tactic_for_def)
  from find_tactic_loop_rev_sorted[OF title_quotes_sorted, of ?qs "order r"]
  show ?thesis unfolding f T by blast
qed

lemma re_search_T_nonempty: "re_search_T i s = Some (j, ds) \<Longrightarrow> ds \<noteq> []"
  by (induction s arbitrary: i) (auto simp: match_T_iff split: option.splits)

lemma add_code_override_nonempty:
  assumes "\<forall>c t. code_to_tactic_override ci c = Some t \<longrightarrow> t \<noteq> []"
  shows "\<forall>c t. code_to_tactic_override (add_code a ci) c = Some t \<longrightarrow> t \<noteq> []"
proof -
  obtain c raw where a: "a = (c, raw)" by (cases a)
  show ?thesis
    using assms re_search_T_nonempty[of 0 raw] unfolding a
    by (auto split: option.splits if_splits)
qed

lemma fold_add_code_override_nonempty:
  "\<forall>c t. code_to_tactic_override ci c = Some t \<longrightarrow> t \<noteq> [] \<Longrightarrow>
   \<forall>c t. code_to_tactic_override (fold add_code codes ci) c = Some t \<longrightarrow> t \<noteq> []"
proof (induction codes arbitrary: ci)
  case Nil
  then show ?case by simp
next
  case (Cons a codes)
  from Cons.IH[OF add_code_override_nonempty[OF Cons.prems, of a]]
  show ?case by simp
qed

lemma override_nonempty:
  "code_to_tactic_override (build_code_index codes) cid = Some t \<Longrightarrow> t \<noteq> []"
  using fold_add_code_override_nonempty[of no_codes codes]
  by (simp add: build_code_index_def no_codes_def)

lemma tactic_codes_loop_append:
  "tactic_codes_loop ci qs before tc0 = Inr tc \<Longrightarrow>
   tactic_codes_loop ci qs (before @ links) tc0 = tactic_codes_loop ci qs links tc"
  by (induction before arbitrary: tc0) (auto split: sum.splits simp del: add_link.simps)

text \<open>The definitions that evaluate a concrete run.\<close>

lemmas eval_defs = quotes_def quotes_by_id_def title_quotes_def find_tactic_for_def
  match_AT_def match_T_def match_digits_close_def is_digit_def is_space_def
  build_code_index_def no_codes_def strip_def rstrip_def add_cid_def

text \<open>
  Claim C1. For a quotation id \<open>q\<close> of the index, with record \<open>r\<close>: either some quotation
  that carries a marker has an order at most that of \<open>r\<close>, and \<open>find_tactic_for\<close> returns the
  number of the one with the greatest such order; or every quotation that carries a marker
  has a greater order than \<open>r\<close>, and the result is \<^verbatim>\<open>None\<close>. The second conjunct is the example
  of the specification: orders 0 to 4, \<^verbatim>\<open>(AT2)\<close> at order 1 and \<^verbatim>\<open>(AT5)\<close> at order 3.
\<close>

theorem find_tactic_for_nearest_marker:
  assumes "quotes_by_id (quotes elems) q = Some r"
  shows "((\<exists>tq \<in> set (quotes elems). q_tactic tq \<noteq> None \<and> order tq \<le> order r
            \<and> (\<forall>tq' \<in> set (quotes elems). q_tactic tq' \<noteq> None \<and> order tq' \<le> order r \<longrightarrow> order tq' \<le> order tq)
            \<and> find_tactic_for (quotes elems) q = Inr (q_tactic tq))
        \<or> ((\<forall>tq \<in> set (quotes elems). q_tactic tq \<noteq> None \<longrightarrow> order r < order tq)
            \<and> find_tactic_for (quotes elems) q = Inr None))
      \<and> map (find_tactic_for (quotes [(''q_0'', ''a''), (''q_1'', ''b (AT2)''), (''q_2'', ''c''),
                                       (''q_3'', ''(AT5) d''), (''q_4'', ''e'')]))
             [''q_0'', ''q_1'', ''q_2'', ''q_3'', ''q_4'']
          = [Inr None, Inr (Some ''2''), Inr (Some ''2''), Inr (Some ''5''), Inr (Some ''5'')]"
proof
  show "(\<exists>tq \<in> set (quotes elems). q_tactic tq \<noteq> None \<and> order tq \<le> order r
            \<and> (\<forall>tq' \<in> set (quotes elems). q_tactic tq' \<noteq> None \<and> order tq' \<le> order r \<longrightarrow> order tq' \<le> order tq)
            \<and> find_tactic_for (quotes elems) q = Inr (q_tactic tq))
        \<or> ((\<forall>tq \<in> set (quotes elems). q_tactic tq \<noteq> None \<longrightarrow> order r < order tq)
            \<and> find_tactic_for (quotes elems) q = Inr None)"
    by (rule find_tactic_for_cases[OF assms])
next
  show "map (find_tactic_for (quotes [(''q_0'', ''a''), (''q_1'', ''b (AT2)''), (''q_2'', ''c''),
                                       (''q_3'', ''(AT5) d''), (''q_4'', ''e'')]))
             [''q_0'', ''q_1'', ''q_2'', ''q_3'', ''q_4'']
          = [Inr None, Inr (Some ''2''), Inr (Some ''2''), Inr (Some ''5''), Inr (Some ''5'')]"
    by (simp add: eval_defs)
qed

theorem find_tactic_for_nearest_marker_witness:
  "quotes_by_id (quotes [(''q_0'', ''a''), (''q_1'', ''b (AT2)''), (''q_2'', ''c'')]) ''q_2''
     = Some \<lparr>qid = ''q_2'', order = 2, q_tactic = None\<rparr>
   \<and> find_tactic_for (quotes [(''q_0'', ''a''), (''q_1'', ''b (AT2)''), (''q_2'', ''c'')]) ''q_2'' = Inr (Some ''2'')"
proof -
  let ?elems = "[(''q_0'', ''a''), (''q_1'', ''b (AT2)''), (''q_2'', ''c'')]"
  have h: "quotes_by_id (quotes ?elems) ''q_2'' = Some \<lparr>qid = ''q_2'', order = 2, q_tactic = None\<rparr>"
    by (simp add: eval_defs)
  have qs: "quotes ?elems = [\<lparr>qid = ''q_0'', order = 0, q_tactic = None\<rparr>,
       \<lparr>qid = ''q_1'', order = 1, q_tactic = Some ''2''\<rparr>, \<lparr>qid = ''q_2'', order = 2, q_tactic = None\<rparr>]"
    by (simp add: eval_defs)
  from find_tactic_for_nearest_marker[OF h]
  have "find_tactic_for (quotes ?elems) ''q_2'' = Inr (Some ''2'')"
    unfolding qs by auto
  with h show ?thesis by simp
qed

text \<open>
  Claim C4. A coding link whose code id has an override in the code index gets that
  override, for every quotation list and every quotation id of the link (in the index or
  not, resolving to a number or not): \<open>find_tactic_for\<close> is not consulted.
\<close>

theorem override_wins:
  assumes "code_to_tactic_override (build_code_index codes) cid = Some t"
  shows "link_tactic (build_code_index codes) qs (cid, q) = Inr (Some t)
       \<and> add_link (build_code_index codes) qs (cid, q) tc = Inr (add_cid t cid tc)"
  using assms override_nonempty[OF assms] by simp

theorem override_wins_witness:
  "find_tactic_for (quotes [(''q_1'', ''title (AT2)'')]) ''q_1'' = Inr (Some ''2'')
   \<and> link_tactic (build_code_index [(''co_1'', ''Caching (T7)'')]) (quotes [(''q_1'', ''title (AT2)'')])
        (''co_1'', ''q_1'') = Inr (Some ''7'')
   \<and> add_link (build_code_index [(''co_1'', ''Caching (T7)'')]) (quotes [(''q_1'', ''title (AT2)'')])
        (''co_1'', ''q_1'') [] = Inr [(''7'', {''co_1''})]"
proof -
  have h: "code_to_tactic_override (build_code_index [(''co_1'', ''Caching (T7)'')]) ''co_1'' = Some ''7''"
    by (simp add: eval_defs)
  have f: "find_tactic_for (quotes [(''q_1'', ''title (AT2)'')]) ''q_1'' = Inr (Some ''2'')"
    by (simp add: eval_defs)
  from override_wins[OF h, of "quotes [(''q_1'', ''title (AT2)'')]" "''q_1''" "[]"] f
  show ?thesis by (simp add: add_cid_def)
qed

text \<open>
  Claim C5 as stated covers every link whose quotation id is not in the index. A link whose
  code has an override does not look the quotation up, and is processed without error.
\<close>

theorem missing_quotation_with_override_counterexample:
  "quotes_by_id (quotes [(''q_1'', ''title (AT2)'')]) ''q_9'' = None
   \<and> add_link (build_code_index [(''co_1'', ''Caching (T7)'')]) (quotes [(''q_1'', ''title (AT2)'')])
        (''co_1'', ''q_9'') [] = Inr [(''7'', {''co_1''})]
   \<and> tactic_codes (build_code_index [(''co_1'', ''Caching (T7)'')]) (quotes [(''q_1'', ''title (AT2)'')])
        [(''co_1'', ''q_9'')] \<noteq> Inl KeyError"
  by (simp add: eval_defs tactic_codes_def)

text \<open>
  Claim C5, as amended. A link whose code id has no override and whose quotation id is not
  in the quotation index raises \<^verbatim>\<open>KeyError\<close>: in the loop body, and in the whole loop once the
  links before it have been processed.
\<close>

theorem missing_quotation_fails:
  assumes "code_to_tactic_override ci cid = None" and "quotes_by_id qs q = None"
  shows "add_link ci qs (cid, q) tc = Inl KeyError
       \<and> (\<forall>before tc0. tactic_codes_loop ci qs before tc0 = Inr tc \<longrightarrow>
             tactic_codes_loop ci qs (before @ (cid, q) # links) tc0 = Inl KeyError)"
proof -
  have a: "add_link ci qs (cid, q) tc = Inl KeyError"
    using assms by (simp add: find_tactic_for_def)
  then have "tactic_codes_loop ci qs ((cid, q) # links) tc = Inl KeyError"
    by (simp del: add_link.simps)
  with a show ?thesis
    by (simp add: tactic_codes_loop_append del: add_link.simps)
qed

theorem missing_quotation_fails_witness:
  "tactic_codes (build_code_index [(''co_1'', ''Caching''), (''co_2'', ''Latency'')])
     (quotes [(''q_1'', ''title (AT2)'')]) [(''co_1'', ''q_1''), (''co_2'', ''q_9''), (''co_1'', ''q_1'')]
   = Inl KeyError"
proof -
  let ?ci = "build_code_index [(''co_1'', ''Caching''), (''co_2'', ''Latency'')]"
  let ?qs = "quotes [(''q_1'', ''title (AT2)'')]"
  have h1: "code_to_tactic_override ?ci ''co_2'' = None" by (simp add: eval_defs)
  have h2: "quotes_by_id ?qs ''q_9'' = None" by (simp add: eval_defs)
  have b: "tactic_codes_loop ?ci ?qs [(''co_1'', ''q_1'')] [] = Inr [(''2'', {''co_1''})]"
    by (simp add: eval_defs)
  have "tactic_codes_loop ?ci ?qs ([(''co_1'', ''q_1'')] @ (''co_2'', ''q_9'') # [(''co_1'', ''q_1'')]) [] = Inl KeyError"
    using missing_quotation_fails[OF h1 h2, of "[(''2'', {''co_1''})]" "[(''co_1'', ''q_1'')]"] b
    by blast
  then show ?thesis by (simp add: tactic_codes_def del: tactic_codes_loop.simps)
qed

text \<open>
  Claim C9. A link whose code id has no override and whose quotation resolves to no number
  leaves the mapping from numbers to code-id sets as it was.
\<close>

theorem unresolved_link_changes_nothing:
  assumes "code_to_tactic_override ci cid = None" and "find_tactic_for qs q = Inr None"
  shows "add_link ci qs (cid, q) tc = Inr tc
       \<and> tactic_codes_loop ci qs ((cid, q) # links) tc = tactic_codes_loop ci qs links tc"
  using assms by simp

theorem unresolved_link_changes_nothing_witness:
  "add_link (build_code_index [(''co_1'', ''Caching'')]) (quotes [(''q_0'', ''intro''), (''q_1'', ''title (AT2)'')])
     (''co_1'', ''q_0'') [(''2'', {''co_1''})] = Inr [(''2'', {''co_1''})]"
proof -
  have h1: "code_to_tactic_override (build_code_index [(''co_1'', ''Caching'')]) ''co_1'' = None"
    by (simp add: eval_defs)
  have h2: "find_tactic_for (quotes [(''q_0'', ''intro''), (''q_1'', ''title (AT2)'')]) ''q_0'' = Inr None"
    by (simp add: eval_defs)
  from unresolved_link_changes_nothing[OF h1 h2, of "[(''2'', {''co_1''})]" "[]"]
  show ?thesis by (simp del: add_link.simps)
qed


section \<open>The cells of the output rows\<close>

lemma names_of_Inr: "names_of m cs = Inr ns \<Longrightarrow> map m cs = map Some ns"
  by (induction cs arbitrary: ns) (auto split: option.splits sum.splits)

lemma cell_Inr:
  assumes "cell ci cids fids = Inr s"
  shows "\<exists>hits names. sorted hits \<and> distinct hits \<and> set hits = cids \<inter> set fids
           \<and> map (code_to_name ci) hits = map Some names \<and> s = join ''; '' names"
proof -
  let ?hits = "sorted_list_of_set (cids \<inter> set fids)"
  have fin: "finite (cids \<inter> set fids)" by simp
  have props: "sorted ?hits" "distinct ?hits" "set ?hits = cids \<inter> set fids"
    using fin by simp_all
  show ?thesis
  proof (cases "?hits = []")
    case True
    with assms have "s = join ''; '' []" by (simp add: cell_def)
    with props True show ?thesis
      by (intro exI[of _ ?hits] exI[of _ "[]"]) simp
  next
    case False
    with assms obtain ns where "names_of (code_to_name ci) ?hits = Inr ns" "s = join ''; '' ns"
      by (auto simp: cell_def Let_def split: sum.splits)
    with props show ?thesis
      by (intro exI[of _ ?hits] exI[of _ ns]) (simp add: names_of_Inr)
  qed
qed

lemma row_loop_preserves:
  "row_loop ci cids fs row0 = Inr row \<Longrightarrow> fname \<notin> (\<lambda>(i, n, ms). n) ` set fs \<Longrightarrow>
   map_of row fname = map_of row0 fname"
  by (induction ci cids fs row0 rule: row_loop.induct)
     (auto split: sum.splits simp: update_conv')

lemma row_loop_lookup:
  "row_loop ci cids (f1 @ (fid, fname, fids) # f2) row0 = Inr row \<Longrightarrow>
   fname \<notin> (\<lambda>(i, n, ms). n) ` set f2 \<Longrightarrow>
   \<exists>s. cell ci cids fids = Inr s \<and> map_of row fname = Some s"
proof (induction f1 arbitrary: row0)
  case Nil
  then obtain s where s: "cell ci cids fids = Inr s"
    and r: "row_loop ci cids f2 (AList.update fname s row0) = Inr row"
    by (auto split: sum.splits)
  from row_loop_preserves[OF r Nil.prems(2)] s show ?case
    by (simp add: update_conv')
next
  case (Cons a f1)
  obtain i n ms where a: "a = (i, n, ms)" by (cases a)
  from Cons.prems(1) obtain s where
    "row_loop ci cids (f1 @ (fid, fname, fids) # f2) (AList.update n s row0) = Inr row"
    unfolding a by (auto split: sum.splits)
  from Cons.IH[OF this Cons.prems(2)] show ?case .
qed

lemma output_loop_preserves:
  "output_loop ci fams tcs out0 = Inr out \<Longrightarrow> tac \<notin> fst ` set tcs \<Longrightarrow>
   map_of out tac = map_of out0 tac"
  by (induction ci fams tcs out0 rule: output_loop.induct)
     (auto split: sum.splits simp: update_conv')

lemma output_loop_lookup:
  "output_loop ci fams (t1 @ (tac, cids) # t2) out0 = Inr out \<Longrightarrow>
   tac \<notin> fst ` set t2 \<Longrightarrow>
   \<exists>row. row_loop ci cids fams [] = Inr row \<and> map_of out tac = Some row"
proof (induction t1 arbitrary: out0)
  case Nil
  then obtain row where s: "row_loop ci cids fams [] = Inr row"
    and r: "output_loop ci fams t2 (AList.update tac row out0) = Inr out"
    by (auto split: sum.splits)
  from output_loop_preserves[OF r Nil.prems(2)] s show ?case
    by (simp add: update_conv')
next
  case (Cons a t1)
  obtain k cs where a: "a = (k, cs)" by (cases a)
  from Cons.prems(1) obtain row' where
    "output_loop ci fams (t1 @ (tac, cids) # t2) (AList.update k row' out0) = Inr out"
    unfolding a by (auto split: sum.splits)
  from Cons.IH[OF this Cons.prems(2)] show ?case .
qed

text \<open>
  Claim C2, as amended. In the output mapping, the cell of the row of a number \<open>tac\<close> under
  the name of a family that no later family shares its name with is built from the codes
  that are both in the code set of \<open>tac\<close> and among the members of the family: their ids in
  ascending order, each id once, their display names joined with \<^verbatim>\<open>"; "\<close> in that order.
  The order is that of the code ids, not of the display names. \<open>tcs\<close> stands for a dict, where
  a key has one entry; in the list it is the last entry of \<open>tac\<close>.
\<close>

theorem cell_names_in_code_id_order:
  assumes "build_output ci fams tcs = Inr out"
    and "tcs = t1 @ (tac, cids) # t2" and "tac \<notin> fst ` set t2"
    and "fams = f1 @ (fid, fname, fids) # f2" and "fname \<notin> (\<lambda>(i, n, ms). n) ` set f2"
  shows "\<exists>row hits names.
           map_of out tac = Some row
         \<and> sorted hits \<and> distinct hits \<and> set hits = cids \<inter> set fids
         \<and> map (code_to_name ci) hits = map Some names
         \<and> map_of row fname = Some (join ''; '' names)"
proof -
  from assms(1) have "output_loop ci fams (t1 @ (tac, cids) # t2) [] = Inr out"
    by (simp add: build_output_def assms(2))
  from output_loop_lookup[OF this assms(3)] obtain row where
    row: "row_loop ci cids fams [] = Inr row" "map_of out tac = Some row" by blast
  from row_loop_lookup[OF row(1)[unfolded assms(4)] assms(5)] obtain s where
    s: "cell ci cids fids = Inr s" "map_of row fname = Some s" by blast
  from cell_Inr[OF s(1)] row(2) s(2) show ?thesis by blast
qed

theorem cell_names_in_code_id_order_witness:
  "build_output (build_code_index [(''co_1'', ''Zebra''), (''co_2'', ''Apple''), (''co_3'', ''Mango'')])
     (families [(''cf_1'', ''1. Title'', [''co_2'', ''co_1'']), (''cf_2'', ''5. Context'', [''co_3''])])
     [(''3'', {''co_3''}), (''7'', {''co_2'', ''co_1'', ''co_3''})]
   = Inr [(''3'', [(''1. Title'', ''''), (''5. Context'', ''Mango'')]),
          (''7'', [(''1. Title'', ''Zebra; Apple''), (''5. Context'', ''Mango'')])]
   \<and> (\<exists>row hits names.
           map_of [(''3'', [(''1. Title'', ''''), (''5. Context'', ''Mango'')]),
                   (''7'', [(''1. Title'', ''Zebra; Apple''), (''5. Context'', ''Mango'')])] ''7'' = Some row
         \<and> sorted hits \<and> distinct hits \<and> set hits = {''co_2'', ''co_1'', ''co_3''} \<inter> set [''co_2'', ''co_1'']
         \<and> map (code_to_name (build_code_index [(''co_1'', ''Zebra''), (''co_2'', ''Apple''), (''co_3'', ''Mango'')])) hits
              = map Some names
         \<and> map_of row ''1. Title'' = Some (join ''; '' names))"
proof -
  let ?ci = "build_code_index [(''co_1'', ''Zebra''), (''co_2'', ''Apple''), (''co_3'', ''Mango'')]"
  let ?fams = "families [(''cf_1'', ''1. Title'', [''co_2'', ''co_1'']), (''cf_2'', ''5. Context'', [''co_3''])]"
  let ?tcs = "[(''3'', {''co_3''}), (''7'', {''co_2'', ''co_1'', ''co_3''})]"
  let ?out = "[(''3'', [(''1. Title'', ''''), (''5. Context'', ''Mango'')]),
          (''7'', [(''1. Title'', ''Zebra; Apple''), (''5. Context'', ''Mango'')])]"
  have out: "build_output ?ci ?fams ?tcs = Inr ?out"
    by (simp add: build_output_def families_def cell_def eval_defs)
  have fams: "?fams = [] @ (''cf_1'', ''1. Title'', [''co_2'', ''co_1'']) # [(''cf_2'', ''5. Context'', [''co_3''])]"
    by (simp add: families_def)
  have tcs: "?tcs = [(''3'', {''co_3''})] @ (''7'', {''co_2'', ''co_1'', ''co_3''}) # []"
    by simp
  from cell_names_in_code_id_order[OF out tcs _ fams] out
  show ?thesis by simp
qed

text \<open>
  Claim C2 as stated orders the names of a cell by display name. With \<^verbatim>\<open>co_1\<close> named
  \<^verbatim>\<open>Zebra\<close> and \<^verbatim>\<open>co_2\<close> named \<^verbatim>\<open>Apple\<close> the cell reads \<^verbatim>\<open>Zebra; Apple\<close>. It also speaks
  of every family: of two families with the same name only the later one fills the cell
  (\<^verbatim>\<open>row[fam_name]\<close> is assigned twice), so the names of the earlier family, here \<^verbatim>\<open>Zebra\<close>,
  are in no cell.
\<close>

theorem cell_sorted_by_name_counterexample:
  "build_output (build_code_index [(''co_1'', ''Zebra''), (''co_2'', ''Apple'')])
     (families [(''cf_1'', ''1. Title'', [''co_1'', ''co_2''])]) [(''7'', {''co_1'', ''co_2''})]
   = Inr [(''7'', [(''1. Title'', ''Zebra; Apple'')])]
   \<and> join ''; '' (sort [''Zebra'', ''Apple'']) = ''Apple; Zebra''
   \<and> ''Zebra; Apple'' \<noteq> join ''; '' (sort [''Zebra'', ''Apple''])
   \<and> build_output (build_code_index [(''co_1'', ''Zebra''), (''co_2'', ''Apple'')])
        (families [(''cf_1'', ''1. Title'', [''co_1'']), (''cf_2'', ''1. Title'', [''co_2''])])
        [(''7'', {''co_1'', ''co_2''})]
      = Inr [(''7'', [(''1. Title'', ''Apple'')])]
   \<and> cell (build_code_index [(''co_1'', ''Zebra''), (''co_2'', ''Apple'')]) {''co_1'', ''co_2''} [''co_1'']
      = Inr ''Zebra''"
  by (simp add: build_output_def families_def cell_def eval_defs)


section \<open>The table: columns and row order\<close>

lemma reindex_from_dict_rows:
  "rows (reindex cs (from_dict pd out)) =
     map (\<lambda>(tac, row). (tac, map (map_of row) cs))
       (filter (\<lambda>(tac, row). pd = Keeps_empty_rows \<or> row \<noteq> []) out)"
proof -
  let ?cs0 = "rev (remdups (rev (concat (map (\<lambda>(tac, row). map fst row) out))))"
  have cell: "(case map_of (zip ?cs0 (map (map_of row) ?cs0)) c of None \<Rightarrow> None | Some v \<Rightarrow> v) = map_of row c"
    if "(tac, row) \<in> set out" for tac row c
  proof (cases "c \<in> set ?cs0")
    case True
    then show ?thesis by (simp add: map_of_zip_map)
  next
    case False
    with that have "c \<notin> fst ` set row" by force
    then have "map_of row c = None" by (simp add: map_of_eq_None_iff)
    with False show ?thesis by (simp add: map_of_zip_map)
  qed
  show ?thesis
    by (auto simp: reindex_def from_dict_def Let_def cell)
qed

lemma astype_int_all_Inr: "astype_int_all ks = Inr ns \<Longrightarrow> map astype_int ks = map Inr ns"
  by (induction ks arbitrary: ns) (auto split: sum.splits)

lemma astype_int_all_fails:
  "k \<in> set ks \<Longrightarrow> astype_int k = Inl e \<Longrightarrow> \<exists>e'. astype_int_all ks = Inl e'"
  by (induction ks) (auto split: sum.splits)

lemma astype_int_all_ok:
  "\<forall>k \<in> set ks. \<exists>n. astype_int k = Inr n \<Longrightarrow> \<exists>ns. astype_int_all ks = Inr ns"
  by (induction ks) (auto split: sum.splits)

lemma sorted_rows:
  assumes "map astype_int (map fst rs) = map Inr ns"
  shows "mset (map snd (sort_key fst (zip ns rs))) = mset rs"
    and "map (astype_int \<circ> fst) (map snd (sort_key fst (zip ns rs)))
           = map Inr (map fst (sort_key fst (zip ns rs)))"
    and "sorted (map fst (sort_key fst (zip ns rs)))"
proof -
  have len: "length ns = length rs"
    using assms by (metis length_map)
  have "mset (map snd (sort_key fst (zip ns rs))) = mset (map snd (zip ns rs))"
    by (metis mset_map mset_sort)
  then show "mset (map snd (sort_key fst (zip ns rs))) = mset rs"
    using len by simp
  have "astype_int (fst r) = Inr n" if "(n, r) \<in> set (zip ns rs)" for n r
  proof -
    from that obtain i where i: "i < length rs" "ns ! i = n" "rs ! i = r"
      using len by (auto simp: set_zip)
    have "map astype_int (map fst rs) ! i = map Inr ns ! i" using assms by simp
    with i len show ?thesis by simp
  qed
  then show "map (astype_int \<circ> fst) (map snd (sort_key fst (zip ns rs)))
           = map Inr (map fst (sort_key fst (zip ns rs)))"
    by auto
  show "sorted (map fst (sort_key fst (zip ns rs)))" by simp
qed

lemma sort_index_Inr:
  assumes "sort_index df = Inr t"
  shows "columns t = columns df \<and> mset (rows t) = mset (rows df)
       \<and> (\<exists>ns. map (astype_int \<circ> fst) (rows t) = map Inr ns \<and> sorted ns)"
proof -
  from assms obtain ns where ns: "astype_int_all (map fst (rows df)) = Inr ns"
    and t: "t = df\<lparr>rows := map snd (sort_key fst (zip ns (rows df)))\<rparr>"
    by (auto simp: sort_index_def split: sum.splits)
  note s = sorted_rows[OF astype_int_all_Inr[OF ns]]
  have r: "rows t = map snd (sort_key fst (zip ns (rows df)))" and c: "columns t = columns df"
    by (simp_all add: t)
  have "\<exists>ms. map (astype_int \<circ> fst) (rows t) = map Inr ms \<and> sorted ms"
    unfolding r using s(2,3) by (intro exI[of _ "map fst (sort_key fst (zip ns (rows df)))"] conjI)
  moreover have "mset (rows t) = mset (rows df)"
    unfolding r by (rule s(1))
  ultimately show ?thesis using c by blast
qed

lemma final_table_Inr:
  assumes "final_table pd out = Inr t"
  shows "columns t = cols"
    and "mset (rows t) = mset (map (\<lambda>(tac, row). (tac, map (map_of row) cols))
           (filter (\<lambda>(tac, row). pd = Keeps_empty_rows \<or> row \<noteq> []) out))"
    and "\<exists>ns. map (astype_int \<circ> fst) (rows t) = map Inr ns \<and> sorted ns"
  using sort_index_Inr[OF assms[unfolded final_table_def]]
  by (simp_all add: reindex_from_dict_rows) (simp add: reindex_def)

lemma length_cols: "length cols = 12"
  by (simp add: cols_def)

lemma final_table_cells:
  assumes "final_table pd out = Inr t" "(k, cells) \<in> set (rows t)"
  shows "length cells = 12"
    and "i < 12 \<Longrightarrow> \<forall>(tac, row) \<in> set out. cols ! i \<notin> fst ` set row \<Longrightarrow> cells ! i = None"
proof -
  have "(k, cells) \<in># mset (rows t)" using assms(2) by simp
  then have "(k, cells) \<in> set (map (\<lambda>(tac, row). (tac, map (map_of row) cols))
      (filter (\<lambda>(tac, row). pd = Keeps_empty_rows \<or> row \<noteq> []) out))"
    unfolding final_table_Inr(2)[OF assms(1)] by simp
  then obtain row where row: "(k, row) \<in> set out" "cells = map (map_of row) cols"
    by auto
  show "length cells = 12" by (simp add: row(2) length_cols)
  assume i: "i < 12" and absent: "\<forall>(tac, row) \<in> set out. cols ! i \<notin> fst ` set row"
  from absent row(1) have "cols ! i \<notin> fst ` set row" by auto
  then have "map_of row (cols ! i) = None" by (simp add: map_of_eq_None_iff)
  with i show "cells ! i = None" by (simp add: row(2) length_cols)
qed

lemma set_update_subset: "set (AList.update k v al) \<subseteq> insert (k, v) (set al)"
  by (induction al) auto

lemma fold_update_subset:
  "set (fold (\<lambda>(fid, name, items). AList.update fid (name, items)) elems acc) \<subseteq> set acc \<union> set elems"
proof (induction elems arbitrary: acc)
  case Nil
  then show ?case by simp
next
  case (Cons a elems)
  obtain fid name items where a: "a = (fid, name, items)" by (cases a)
  from Cons.IH[of "AList.update fid (name, items) acc"] set_update_subset[of fid "(name, items)" acc]
  show ?case by (auto simp: a)
qed

lemma families_subset: "set (families felems) \<subseteq> set felems"
  using fold_update_subset[of felems "[]"] by (simp add: families_def)

lemma row_loop_keys:
  "row_loop ci cids fs row0 = Inr row \<Longrightarrow>
   fst ` set row \<subseteq> fst ` set row0 \<union> (\<lambda>(i, n, ms). n) ` set fs"
proof (induction ci cids fs row0 rule: row_loop.induct)
  case (1 ci cids row)
  then show ?case by simp
next
  case (2 ci cids fam_id fam_name fam_code_ids fams row0)
  from "2.prems" obtain s where s: "cell ci cids fam_code_ids = Inr s"
    and r: "row_loop ci cids fams (AList.update fam_name s row0) = Inr row"
    by (auto split: sum.splits)
  from "2.IH"[OF s r] show ?case
    by (auto simp: dom_update)
qed

lemma output_loop_rows:
  "output_loop ci fams tcs out0 = Inr out \<Longrightarrow> (tac, row) \<in> set out \<Longrightarrow>
   (tac, row) \<in> set out0 \<or> (\<exists>cids. row_loop ci cids fams [] = Inr row)"
proof (induction ci fams tcs out0 rule: output_loop.induct)
  case (1 ci fams out)
  then show ?case by simp
next
  case (2 ci fams t cids tcs out0)
  from "2.prems"(1) obtain r where r: "row_loop ci cids fams [] = Inr r"
    and o: "output_loop ci fams tcs (AList.update t r out0) = Inr out"
    by (auto split: sum.splits)
  from "2.IH"[OF r o "2.prems"(2)] set_update_subset[of t r out0] r
  show ?case by auto
qed

lemma build_output_keys:
  assumes "build_output ci (families felems) tcs = Inr out" "(tac, row) \<in> set out"
  shows "fst ` set row \<subseteq> (\<lambda>(i, n, ms). n) ` set felems"
proof -
  from output_loop_rows[OF assms(1)[unfolded build_output_def] assms(2)]
  obtain cids where "row_loop ci cids (families felems) [] = Inr row" by auto
  from row_loop_keys[OF this] families_subset[of felems] show ?thesis by auto
qed

lemma run_script_Inr:
  assumes "run_script pd codes qelems felems links = Inr t"
  obtains tcs out where "build_output (build_code_index codes) (families felems) tcs = Inr out"
    and "final_table pd out = Inr t"
  using assms by (auto simp: run_script_def Let_def split: sum.splits)

lemma int_literal_digits_plain:
  "list_all is_digit ds \<Longrightarrow> ds \<noteq> [] \<Longrightarrow> int_literal_digits ds = Some ds"
proof (induction ds rule: int_literal_digits.induct)
  case 1
  then show ?case by simp
next
  case (2 c)
  then show ?case by simp
next
  case (3 c d ds)
  then have "d \<noteq> CHR ''_''" by (auto simp: is_digit_def Let_def)
  with 3 show ?case by simp
qed

lemma digit_not_int_space: "is_digit c \<Longrightarrow> \<not> is_int_space c"
  and digit_not_sign: "is_digit c \<Longrightarrow> c \<noteq> CHR ''-'' \<and> c \<noteq> CHR ''+''"
  by (auto simp: is_digit_def is_int_space_def Let_def)

lemma int_strip_plain:
  assumes "list_all is_digit ds" "ds \<noteq> []"
  shows "int_strip ds = ds"
proof -
  have "\<not> is_int_space (hd ds)" "\<not> is_int_space (last ds)"
    using assms by (auto simp: list_all_iff intro!: digit_not_int_space)
  then have "dropWhile is_int_space ds = ds" "dropWhile is_int_space (rev ds) = rev ds"
    using assms(2) by (simp_all add: dropWhile_eq_self_iff hd_rev)
  then show ?thesis by (simp add: int_strip_def)
qed

lemma py_int_plain:
  assumes "list_all is_digit ds" "ds \<noteq> []"
  shows "py_int ds = (if 4300 < length ds then None else Some (digits_value ds))"
proof -
  obtain c r where ds: "ds = c # r" using assms(2) by (cases ds) auto
  with assms(1) have c: "c \<noteq> CHR ''-''" "c \<noteq> CHR ''+''"
    using digit_not_sign[of c] by auto
  show ?thesis
    using int_literal_digits_plain[OF assms] c
    by (simp add: py_int_def int_strip_plain[OF assms] ds[symmetric]) (simp add: ds)
qed

lemma tactic_codes_single_override:
  assumes "ds \<noteq> []" "list_all is_digit ds"
  shows "tactic_codes (build_code_index [(cid, ''x (T'' @ ds @ '')'')]) qs [(cid, q)] = Inr [(ds, {cid})]"
proof -
  have "add_code (cid, ''x '' @ ''(T'' @ ds @ CHR '')'' # []) no_codes
          = no_codes\<lparr>code_to_name := (code_to_name no_codes)(cid \<mapsto> strip ''x ''),
              code_to_tactic_override := (code_to_tactic_override no_codes)(cid \<mapsto> ds)\<rparr>"
    by (rule add_code_suffix_step[OF assms]) simp
  then have "code_to_tactic_override (build_code_index [(cid, ''x (T'' @ ds @ '')'')]) cid = Some ds"
    by (simp add: build_code_index_def del: add_code.simps)
  then show ?thesis
    using assms(1) by (simp add: tactic_codes_def add_cid_def)
qed

lemma final_table_drops_all:
  assumes "\<forall>(tac, row) \<in> set out. row = []"
  shows "final_table Drops_empty_rows out = Inr \<lparr>columns = cols, rows = []\<rparr>"
proof -
  have "filter (\<lambda>(tac, row). Drops_empty_rows = Keeps_empty_rows \<or> row \<noteq> []) out = []"
    using assms by (auto simp: filter_empty_conv)
  then have "rows (reindex cols (from_dict Drops_empty_rows out)) = []"
    by (simp add: reindex_from_dict_rows)
  moreover have "columns (reindex cols (from_dict Drops_empty_rows out)) = cols"
    by (simp add: reindex_def)
  ultimately show ?thesis
    by (simp add: final_table_def sort_index_def)
qed

text \<open>The definitions that evaluate a concrete table.\<close>

lemmas table_defs = final_table_def from_dict_def reindex_def sort_index_def cols_def
  astype_int_def py_int_def int_strip_def is_int_space_def valid_integer_string_def
  digits_value_def run_script_def tactic_codes_def build_output_def families_def cell_def

text \<open>
  Claim C6. \<open>cols\<close> are the twelve headers, in the order of the specification. The frame
  after \<^verbatim>\<open>reindex\<close> has exactly these columns, whatever the output mapping holds and
  whichever pandas builds it, and so has the sorted frame of every run that ends without an
  exception. Every row has twelve cells, and a cell is missing (empty) when its header is
  the name of no family: of no row of the output mapping, and for a whole run, of no family
  of the document.
\<close>

theorem twelve_fixed_columns:
  "cols = [''1. Title'', ''2. Description'', ''3. Participant'', ''4. Related Software Artifact'',
           ''5. Context'', ''6. Software Feature'', ''7. Tactic Intent'', ''8. Target Quality Attribute'',
           ''9. Other Related Quality Attributes'', ''10. Measured Impact'', ''11. Level of abstraction'',
           ''12. Tool or framework'']
   \<and> length cols = 12
   \<and> columns (reindex cols (from_dict pd out)) = cols
   \<and> (\<forall>t. final_table pd out = Inr t \<longrightarrow>
          columns t = cols
        \<and> (\<forall>(k, cells) \<in> set (rows t). length cells = 12
             \<and> (\<forall>i < 12. (\<forall>(tac, row) \<in> set out. cols ! i \<notin> fst ` set row) \<longrightarrow> cells ! i = None)))
   \<and> (\<forall>t. run_script pd codes qelems felems links = Inr t \<longrightarrow>
          columns t = cols
        \<and> (\<forall>(k, cells) \<in> set (rows t). length cells = 12
             \<and> (\<forall>i < 12. cols ! i \<notin> (\<lambda>(fid, name, items). name) ` set felems \<longrightarrow> cells ! i = None)))"
proof (intro conjI allI impI)
  show "cols = [''1. Title'', ''2. Description'', ''3. Participant'', ''4. Related Software Artifact'',
           ''5. Context'', ''6. Software Feature'', ''7. Tactic Intent'', ''8. Target Quality Attribute'',
           ''9. Other Related Quality Attributes'', ''10. Measured Impact'', ''11. Level of abstraction'',
           ''12. Tool or framework'']"
    by (simp add: cols_def)
  show "length cols = 12" by (rule length_cols)
  show "columns (reindex cols (from_dict pd out)) = cols" by (simp add: reindex_def)
next
  fix t assume "final_table pd out = Inr t"
  then show "columns t = cols" by (rule final_table_Inr(1))
next
  fix t assume t: "final_table pd out = Inr t"
  show "\<forall>(k, cells) \<in> set (rows t). length cells = 12
             \<and> (\<forall>i < 12. (\<forall>(tac, row) \<in> set out. cols ! i \<notin> fst ` set row) \<longrightarrow> cells ! i = None)"
    using final_table_cells[OF t] by blast
next
  fix t assume "run_script pd codes qelems felems links = Inr t"
  then obtain tcs out' where "final_table pd out' = Inr t" by (rule run_script_Inr)
  then show "columns t = cols" by (rule final_table_Inr(1))
next
  fix t assume "run_script pd codes qelems felems links = Inr t"
  then obtain tcs out' where
    out': "build_output (build_code_index codes) (families felems) tcs = Inr out'"
    and t: "final_table pd out' = Inr t" by (rule run_script_Inr)
  show "\<forall>(k, cells) \<in> set (rows t). length cells = 12
             \<and> (\<forall>i < 12. cols ! i \<notin> (\<lambda>(fid, name, items). name) ` set felems \<longrightarrow> cells ! i = None)"
  proof (intro ballI, clarify, intro conjI allI impI)
    fix k cells assume kc: "(k, cells) \<in> set (rows t)"
    show "length cells = 12" by (rule final_table_cells(1)[OF t kc])
    fix i :: nat assume i: "i < 12" and a: "cols ! i \<notin> (\<lambda>(fid, name, items). name) ` set felems"
    have "\<forall>(tac, row) \<in> set out'. cols ! i \<notin> fst ` set row"
      using build_output_keys[OF out'] a by blast
    then show "cells ! i = None" by (rule final_table_cells(2)[OF t kc i])
  qed
qed

theorem twelve_fixed_columns_witness:
  "run_script Drops_empty_rows [(''co_1'', ''Caching (T7)''), (''co_2'', ''Latency'')] [(''q_1'', ''x (AT3)'')]
     [(''cf_1'', ''1. Title'', [''co_1'']), (''cf_2'', ''Unlisted family'', [''co_2''])]
     [(''co_1'', ''q_1''), (''co_2'', ''q_1'')]
   = Inr \<lparr>columns = cols,
          rows = [(''3'', [Some [], None, None, None, None, None, None, None, None, None, None, None]),
                  (''7'', [Some ''Caching'', None, None, None, None, None, None, None, None, None, None, None])]\<rparr>
   \<and> length cols = 12
   \<and> map (\<lambda>(k, cells). (length cells, cells ! 1))
         [(''3'', [Some [], None, None, None, None, None, None, None, None, None, None, None]),
          (''7'', [Some ''Caching'', None, None, None, None, None, None, None, None, None, None, None])]
       = [(12, None), (12, None)]"
proof -
  let ?codes = "[(''co_1'', ''Caching (T7)''), (''co_2'', ''Latency'')]"
  let ?qelems = "[(''q_1'', ''x (AT3)'')]"
  let ?felems = "[(''cf_1'', ''1. Title'', [''co_1'']), (''cf_2'', ''Unlisted family'', [''co_2''])]"
  let ?links = "[(''co_1'', ''q_1''), (''co_2'', ''q_1'')]"
  let ?rows = "[(''3'', [Some [], None, None, None, None, None, None, None, None, None, None, None]),
                  (''7'', [Some ''Caching'', None, None, None, None, None, None, None, None, None, None, None])]"
  have run: "run_script Drops_empty_rows ?codes ?qelems ?felems ?links = Inr \<lparr>columns = cols, rows = ?rows\<rparr>"
    by (simp add: table_defs eval_defs)
  have absent: "cols ! 1 \<notin> (\<lambda>(fid, name, items). name) ` set ?felems"
    by (simp add: cols_def)
  note cols12 = twelve_fixed_columns[where codes = ?codes and qelems = ?qelems and felems = ?felems
      and links = ?links and out = "[]" and pd = Drops_empty_rows]
  from cols12 have len: "length cols = 12" by blast
  from cols12 run have cells: "\<forall>(k, cells) \<in> set (rows \<lparr>columns = cols, rows = ?rows\<rparr>). length cells = 12
             \<and> (\<forall>i < 12. cols ! i \<notin> (\<lambda>(fid, name, items). name) ` set ?felems \<longrightarrow> cells ! i = None)"
    by blast
  have "\<forall>(k, cells) \<in> set ?rows. length cells = 12 \<and> cells ! 1 = None"
    using cells absent by simp
  then have "map (\<lambda>(k, cells). (length cells, cells ! 1)) ?rows = [(12, None), (12, None)]"
    by simp
  with run len show ?thesis by blast
qed

lemma key_without_row_general:
  assumes "ds \<noteq> []" "list_all is_digit ds" "4300 < length ds"
  shows "\<not> valid_integer_string ds
   \<and> tactic_codes (build_code_index [(''co_1'', ''x (T'' @ ds @ '')'')]) (quotes []) [(''co_1'', ''q_1'')]
        = Inr [(ds, {''co_1''})]
   \<and> build_output (build_code_index [(''co_1'', ''x (T'' @ ds @ '')'')]) (families []) [(ds, {''co_1''})]
        = Inr [(ds, [])]
   \<and> run_script Drops_empty_rows [(''co_1'', ''x (T'' @ ds @ '')'')] [] [] [(''co_1'', ''q_1'')]
        = Inr \<lparr>columns = cols, rows = []\<rparr>
   \<and> run_script Keeps_empty_rows [(''co_1'', ''x (T'' @ ds @ '')'')] [] [] [(''co_1'', ''q_1'')]
        = Inl ValueError"
proof -
  have v: "py_int ds = None"
    using py_int_plain[OF assms(2,1)] assms(3) by simp
  have tc: "tactic_codes (build_code_index [(''co_1'', ''x (T'' @ ds @ '')'')]) (quotes []) [(''co_1'', ''q_1'')]
        = Inr [(ds, {''co_1''})]"
    by (rule tactic_codes_single_override[OF assms(1,2)])
  have bo: "build_output (build_code_index [(''co_1'', ''x (T'' @ ds @ '')'')]) (families []) [(ds, {''co_1''})]
        = Inr [(ds, [])]"
    by (simp add: build_output_def families_def)
  have d: "final_table Drops_empty_rows [(ds, [])] = Inr \<lparr>columns = cols, rows = []\<rparr>"
    by (rule final_table_drops_all) simp
  have k: "final_table Keeps_empty_rows [(ds, [])] = Inl ValueError"
    using v by (simp add: final_table_def sort_index_def reindex_from_dict_rows astype_int_def)
  show ?thesis
    using v tc bo d k by (simp add: run_script_def valid_integer_string_def)
qed

text \<open>
  Claim C7 as stated covers every key of the output mapping. A code named \<^verbatim>\<open>x (T\<close>, 4301
  digits, \<^verbatim>\<open>)\<close> gives a key that \<^verbatim>\<open>int\<close> refuses. In a document without families the row dict
  of the key is empty; where pandas leaves such keys out of the frame the run ends without
  an exception and the frame has no rows, where pandas keeps them the run raises.
\<close>

theorem key_without_row_counterexample:
  "\<not> valid_integer_string (replicate 4301 (CHR ''1''))
   \<and> tactic_codes (build_code_index [(''co_1'', ''x (T'' @ replicate 4301 (CHR ''1'') @ '')'')]) (quotes [])
        [(''co_1'', ''q_1'')]
        = Inr [(replicate 4301 (CHR ''1''), {''co_1''})]
   \<and> build_output (build_code_index [(''co_1'', ''x (T'' @ replicate 4301 (CHR ''1'') @ '')'')]) (families [])
        [(replicate 4301 (CHR ''1''), {''co_1''})]
        = Inr [(replicate 4301 (CHR ''1''), [])]
   \<and> run_script Drops_empty_rows [(''co_1'', ''x (T'' @ replicate 4301 (CHR ''1'') @ '')'')] [] []
        [(''co_1'', ''q_1'')]
        = Inr \<lparr>columns = cols, rows = []\<rparr>
   \<and> run_script Keeps_empty_rows [(''co_1'', ''x (T'' @ replicate 4301 (CHR ''1'') @ '')'')] [] []
        [(''co_1'', ''q_1'')]
        = Inl ValueError"
proof (rule key_without_row_general)
  show "replicate 4301 (CHR ''1'') \<noteq> []"
    by simp
  show "list_all is_digit (replicate 4301 (CHR ''1''))"
    by (simp add: list_all_iff is_digit_def)
  show "4300 < length (replicate 4301 (CHR ''1''))"
    by simp
qed

text \<open>
  Claim C7, as amended. When a key of the output mapping is not a valid integer string and
  is a row of the frame (its row dict has a cell, or pandas keeps keys with an empty row
  dict), the sort step raises: steps 7 and 8 end with an exception, and so does every run of
  the script that produced this output mapping. Where pandas leaves out keys with an empty
  row dict and every row dict is empty, the sort step raises nothing and the frame has no
  rows (third conjunct).
\<close>

theorem non_integer_key_fails:
  assumes "(tac, row) \<in> set out" and "\<not> valid_integer_string tac"
    and "pd = Keeps_empty_rows \<or> row \<noteq> []"
  shows "(\<exists>e'. final_table pd out = Inl e')
       \<and> (\<forall>codes qelems felems links tcs.
             tactic_codes (build_code_index codes) (quotes qelems) links = Inr tcs
           \<and> build_output (build_code_index codes) (families felems) tcs = Inr out
           \<longrightarrow> (\<exists>e'. run_script pd codes qelems felems links = Inl e'))
       \<and> ((\<forall>(tac', row') \<in> set out'. row' = []) \<longrightarrow>
            final_table Drops_empty_rows out' = Inr \<lparr>columns = cols, rows = []\<rparr>)"
proof -
  have "(tac, map (map_of row) cols) \<in> set (rows (reindex cols (from_dict pd out)))"
    using assms(1,3) by (force simp: reindex_from_dict_rows)
  then have "tac \<in> set (map fst (rows (reindex cols (from_dict pd out))))" by force
  moreover have "astype_int tac = Inl ValueError"
    using assms(2) by (simp add: astype_int_def valid_integer_string_def)
  ultimately have f: "\<exists>e'. final_table pd out = Inl e'"
    using astype_int_all_fails by (fastforce simp: final_table_def sort_index_def)
  then have "\<forall>codes qelems felems links tcs.
             tactic_codes (build_code_index codes) (quotes qelems) links = Inr tcs
           \<and> build_output (build_code_index codes) (families felems) tcs = Inr out
           \<longrightarrow> (\<exists>e'. run_script pd codes qelems felems links = Inl e')"
    by (auto simp: run_script_def)
  with f final_table_drops_all[of out'] show ?thesis by blast
qed

theorem non_integer_key_fails_witness:
  "final_table Drops_empty_rows [(''7'', [(''1. Title'', ''Caching'')]), (''abc'', [(''1. Title'', ''Latency'')])]
     = Inl ValueError
   \<and> final_table Keeps_empty_rows [(''abc'', [])] = Inl ValueError"
proof -
  have h: "\<not> valid_integer_string ''abc''"
    by (simp add: valid_integer_string_def py_int_def int_strip_def is_int_space_def is_digit_def)
  have e1: "sort_index (reindex cols (from_dict Drops_empty_rows
              [(''7'', [(''1. Title'', ''Caching'')]), (''abc'', [(''1. Title'', ''Latency'')])])) \<noteq> Inl OverflowError"
    "sort_index (reindex cols (from_dict Drops_empty_rows
              [(''7'', [(''1. Title'', ''Caching'')]), (''abc'', [(''1. Title'', ''Latency'')])])) \<noteq> Inl KeyError"
    by (simp_all add: table_defs eval_defs)
  have e2: "sort_index (reindex cols (from_dict Keeps_empty_rows [(''abc'', [])])) \<noteq> Inl OverflowError"
    "sort_index (reindex cols (from_dict Keeps_empty_rows [(''abc'', [])])) \<noteq> Inl KeyError"
    by (simp_all add: table_defs eval_defs)
  have "\<exists>e'. final_table Drops_empty_rows
          [(''7'', [(''1. Title'', ''Caching'')]), (''abc'', [(''1. Title'', ''Latency'')])] = Inl e'"
    using non_integer_key_fails[of "''abc''" "[(''1. Title'', ''Latency'')]"
        "[(''7'', [(''1. Title'', ''Caching'')]), (''abc'', [(''1. Title'', ''Latency'')])]" Drops_empty_rows, OF _ h]
    by simp
  moreover have "\<exists>e'. final_table Keeps_empty_rows [(''abc'', [])] = Inl e'"
    using non_integer_key_fails[of "''abc''" "[]" "[(''abc'', [])]" Keeps_empty_rows, OF _ h]
    by simp
  ultimately show ?thesis
    using e1 e2 by (auto simp: final_table_def) (metis error.exhaust)+
qed

lemma astype_int_Inr_iff:
  "astype_int k = Inr n \<longleftrightarrow> py_int k = Some n \<and> - (2 ^ 63) \<le> n \<and> n < 2 ^ 63"
  by (auto simp: astype_int_def split: option.splits if_splits)

lemma astype_keys_py_int:
  "map (\<lambda>x. astype_int (f x)) xs = map Inr ns \<Longrightarrow> map (\<lambda>x. py_int (f x)) xs = map Some ns"
proof (induction xs arbitrary: ns)
  case Nil
  then show ?case by simp
next
  case (Cons x xs)
  then obtain n ns' where ns: "ns = n # ns'" by (cases ns) auto
  with Cons.prems have "astype_int (f x) = Inr n" and "map (\<lambda>x. astype_int (f x)) xs = map Inr ns'"
    by simp_all
  with Cons.IH[of ns'] ns show ?case by (simp add: astype_int_Inr_iff)
qed

text \<open>
  Claim C8 as stated asks only for valid integer strings. The key \<^verbatim>\<open>9223372036854775808\<close>
  (2 to the power 63) is one, \<^verbatim>\<open>int\<close> accepts it, and the run of a document whose code is
  named \<^verbatim>\<open>x (T9223372036854775808)\<close> ends with \<^verbatim>\<open>OverflowError\<close> in the sort step: no rows
  are written.
\<close>

theorem key_beyond_int64_counterexample:
  "valid_integer_string ''9223372036854775808''
   \<and> py_int ''9223372036854775808'' = Some 9223372036854775808
   \<and> build_output (build_code_index [(''co_1'', ''x (T9223372036854775808)'')])
        (families [(''cf_1'', ''1. Title'', [''co_1''])]) [(''9223372036854775808'', {''co_1''})]
        = Inr [(''9223372036854775808'', [(''1. Title'', ''x'')])]
   \<and> run_script Drops_empty_rows [(''co_1'', ''x (T9223372036854775808)'')] []
        [(''cf_1'', ''1. Title'', [''co_1''])] [(''co_1'', ''q_1'')] = Inl OverflowError
   \<and> run_script Keeps_empty_rows [(''co_1'', ''x (T9223372036854775808)'')] []
        [(''cf_1'', ''1. Title'', [''co_1''])] [(''co_1'', ''q_1'')] = Inl OverflowError"
  by (simp add: table_defs eval_defs)

text \<open>
  Claim C8, as amended. When every key of the output mapping is a valid integer string whose
  integer is in the signed 64-bit range, steps 7 and 8 end without an exception, the rows of
  the result are the rows of the frame before sorting (as a multiset), and the integers of
  their keys ascend. For the keys \<^verbatim>\<open>10\<close> and \<^verbatim>\<open>9\<close>, in this order in the mapping, the result
  has \<^verbatim>\<open>9\<close> first, though the string \<^verbatim>\<open>10\<close> is below the string \<^verbatim>\<open>9\<close>.
\<close>

theorem rows_in_ascending_integer_order:
  assumes "\<forall>(tac, row) \<in> set out.
             valid_integer_string tac \<and> (\<exists>n. py_int tac = Some n \<and> - (2 ^ 63) \<le> n \<and> n < 2 ^ 63)"
  shows "(\<exists>t ns. final_table pd out = Inr t \<and> columns t = cols
            \<and> mset (rows t) = mset (rows (reindex cols (from_dict pd out)))
            \<and> map (py_int \<circ> fst) (rows t) = map Some ns \<and> sorted ns)
       \<and> (\<exists>t. final_table pd [(''10'', [(''1. Title'', ''b'')]), (''9'', [(''1. Title'', ''a'')])] = Inr t
            \<and> map fst (rows t) = [''9'', ''10''])
       \<and> (''10'' :: string) < ''9''"
proof (intro conjI)
  have "\<forall>k \<in> set (map fst (rows (reindex cols (from_dict pd out)))). \<exists>n. astype_int k = Inr n"
    using assms by (fastforce simp: reindex_from_dict_rows astype_int_Inr_iff)
  from astype_int_all_ok[OF this] obtain t where t: "final_table pd out = Inr t"
    by (auto simp: final_table_def sort_index_def)
  from sort_index_Inr[OF t[unfolded final_table_def]] obtain ns where
    m: "mset (rows t) = mset (rows (reindex cols (from_dict pd out)))"
    and a: "map (astype_int \<circ> fst) (rows t) = map Inr ns" and s: "sorted ns"
    by blast
  have "map (py_int \<circ> fst) (rows t) = map Some ns"
    unfolding comp_def by (rule astype_keys_py_int[OF a[unfolded comp_def]])
  with m s final_table_Inr(1)[OF t] t
  show "\<exists>t ns. final_table pd out = Inr t \<and> columns t = cols
            \<and> mset (rows t) = mset (rows (reindex cols (from_dict pd out)))
            \<and> map (py_int \<circ> fst) (rows t) = map Some ns \<and> sorted ns"
    by blast
  show "\<exists>t. final_table pd [(''10'', [(''1. Title'', ''b'')]), (''9'', [(''1. Title'', ''a'')])] = Inr t
            \<and> map fst (rows t) = [''9'', ''10'']"
    by (simp add: table_defs eval_defs)
  show "(''10'' :: string) < ''9''" by simp
qed

theorem rows_in_ascending_integer_order_witness:
  "\<exists>t ns. final_table Drops_empty_rows
        [(''10'', [(''1. Title'', ''b'')]), (''9'', [(''1. Title'', ''a'')]), (''2'', [(''1. Title'', ''c'')])] = Inr t
      \<and> columns t = cols
      \<and> mset (rows t) = mset (rows (reindex cols (from_dict Drops_empty_rows
            [(''10'', [(''1. Title'', ''b'')]), (''9'', [(''1. Title'', ''a'')]), (''2'', [(''1. Title'', ''c'')])])))
      \<and> map (py_int \<circ> fst) (rows t) = map Some ns \<and> sorted ns"
proof -
  have p: "py_int ''10'' = Some 10" "py_int ''9'' = Some 9" "py_int ''2'' = Some 2"
    by (simp_all add: py_int_def int_strip_def is_int_space_def is_digit_def digits_value_def)
  then have h: "\<forall>(tac, row) \<in> set [(''10'', [(''1. Title'', ''b'')]), (''9'', [(''1. Title'', ''a'')]), (''2'', [(''1. Title'', ''c'')])].
             valid_integer_string tac \<and> (\<exists>n. py_int tac = Some n \<and> - (2 ^ 63) \<le> n \<and> n < 2 ^ 63)"
    by (simp add: valid_integer_string_def)
  from rows_in_ascending_integer_order[OF h, of Drops_empty_rows] show ?thesis by blast
qed

end
